theory Spec2Isabelle
  imports Main "HOL-Library.Monad_Syntax"
begin

text \<open>
  A model of srs-resolver, a TCP service that decodes SRS addresses for
  autoresponders: one request line \<open>get <address>\<close> per connection, one response.
  The model follows the program that has the privilege step (\<open>dropPrivileges\<close>). The
  older copy under \<open>cmd/srs-resolver/main.go\<close> has the same \<open>decodeSRS\<close>,
  \<open>isCleanEmail\<close> and \<open>handle\<close> up to the wording of its messages, and no privilege
  step.
\<close>

section \<open>Go strings and the functions of package strings the resolver calls\<close>

text \<open>
  A Go string is a sequence of bytes, and \<open>len\<close> counts bytes: it is modelled as
  \<^typ>\<open>string\<close>, a list of 8-bit \<^typ>\<open>char\<close>. A run-time panic (an index or a
  slice out of range) is the value \<open>None\<close> of an option type, so that every index
  expression of the source is a branch of the model.
\<close>

definition at :: "'a list \<Rightarrow> nat \<Rightarrow> 'a option" where
  \<comment> \<open>\<open>xs[i]\<close>: Go panics when the index is out of range.\<close>
  "at xs i = (if i < length xs then Some (xs ! i) else None)"

definition slice_from :: "'a list \<Rightarrow> nat \<Rightarrow> 'a list option" where
  \<comment> \<open>\<open>s[i:]\<close>: Go panics when \<open>i > len(s)\<close>.\<close>
  "slice_from s i = (if i \<le> length s then Some (drop i s) else None)"

text \<open>
  Every separator the resolver passes to \<open>strings.Index\<close>, \<open>Contains\<close>, \<open>Count\<close>,
  \<open>Split\<close> and \<open>SplitN\<close> is a one-byte literal (\<open>"="\<close>, \<open>"@"\<close>, \<open>"."\<close>), so the
  separator is a \<^typ>\<open>char\<close>; the library's branch for the empty separator cannot be
  reached from this program.
\<close>

fun Index :: "string \<Rightarrow> char \<Rightarrow> nat option" where
  \<comment> \<open>the position of the first occurrence, \<open>None\<close> for Go's \<open>-1\<close>\<close>
  "Index [] c = None"
| "Index (x # xs) c = (if x = c then Some 0 else map_option Suc (Index xs c))"

definition Contains :: "string \<Rightarrow> char \<Rightarrow> bool" where
  \<comment> \<open>\<open>Index(s, substr) >= 0\<close>\<close>
  "Contains s c = (Index s c \<noteq> None)"

definition Count :: "string \<Rightarrow> char \<Rightarrow> nat" where
  "Count s c = length (filter (\<lambda>x. x = c) s)"

definition ContainsAny :: "string \<Rightarrow> string \<Rightarrow> bool" where
  \<comment> \<open>some byte of \<open>s\<close> is one of \<open>chars\<close> (all of them ASCII in this program)\<close>
  "ContainsAny s chars = list_ex (\<lambda>x. x \<in> set chars) s"

definition HasPrefix :: "string \<Rightarrow> string \<Rightarrow> bool" where
  \<comment> \<open>\<open>len(s) >= len(prefix) && s[:len(prefix)] == prefix\<close>\<close>
  "HasPrefix s p = (length p \<le> length s \<and> take (length p) s = p)"

fun split_loop :: "string \<Rightarrow> char \<Rightarrow> nat \<Rightarrow> nat \<Rightarrow> string list" where
  \<comment> \<open>the loop of \<open>genSplit\<close>; the last argument is \<open>n - i\<close>, the cuts still allowed\<close>
  "split_loop s sep sepSave 0 = [s]"
| "split_loop s sep sepSave (Suc k) =
     (case Index s sep of
        None \<Rightarrow> [s]
      | Some m \<Rightarrow> take (m + sepSave) s # split_loop (drop (m + 1) s) sep sepSave k)"

definition genSplit :: "string \<Rightarrow> char \<Rightarrow> nat \<Rightarrow> int \<Rightarrow> string list" where
  \<comment> \<open>\<open>n = 0\<close> gives nil; \<open>n < 0\<close> means all fields; \<open>n\<close> is capped at \<open>len(s) + 1\<close>\<close>
  "genSplit s sep sepSave n =
     (if n = 0 then []
      else
        let n1 = (if n < 0 then Count s sep + 1 else nat n);
            n2 = (if n1 > length s + 1 then length s + 1 else n1)
        in split_loop s sep sepSave (n2 - 1))"

definition SplitN :: "string \<Rightarrow> char \<Rightarrow> int \<Rightarrow> string list" where
  "SplitN s sep n = genSplit s sep 0 n"

definition Split :: "string \<Rightarrow> char \<Rightarrow> string list" where
  "Split s sep = genSplit s sep 0 (- 1)"

section \<open>The SRS decoder and the clean-email check\<close>

definition notAllowedChars :: string where
  \<comment> \<open>space, angle brackets, parentheses, comma, semicolon, equals sign, double quote\<close>
  "notAllowedChars = '' <>(),;='' @ [CHR 0x22]"

text \<open>
  \<open>decodeSRS\<close> returns \<open>(string, error)\<close>: \<open>Some (Inr a)\<close> is the decoded address,
  \<open>Some (Inl msg)\<close> the error made by \<open>fmt.Errorf\<close>, and \<open>None\<close> a panic.
\<close>

definition decodeSRS :: "string \<Rightarrow> (string + string) option" where
  "decodeSRS srs =
     (let parts = SplitN srs CHR ''='' 5 in
      if length parts \<noteq> 5 then Some (Inl ''SRS format - wrong number of parts'')
      else do {
        domain \<leftarrow> at parts 3;
        local \<leftarrow> at parts 4;
        if Contains local CHR ''@'' then do {
          user \<leftarrow> at (Split local CHR ''@'') 0;
          Some (Inr (user @ ''@'' @ domain))
        } else Some (Inr (local @ ''@'' @ domain))
      })"

definition isCleanEmail :: "string \<Rightarrow> bool option" where
  "isCleanEmail s =
     (if ContainsAny s notAllowedChars then Some False
      else if Count s CHR ''@'' \<noteq> 1 then Some False
      else do {
        let parts = Split s CHR ''@'';
        p0 \<leftarrow> at parts 0;
        p1 \<leftarrow> at parts 1;
        if length p0 = 0 \<or> length p1 < 3 then Some False
        else if \<not> Contains p1 CHR ''.'' then Some False
        else Some True
      })"

section \<open>Package unicode/utf8 and \<open>strings.TrimSpace\<close>\<close>

text \<open>
  \<open>TrimSpace\<close> removes white space "as defined by Unicode": it scans ASCII bytes
  directly and, at the first byte that is not ASCII, hands the rest to \<open>TrimFunc\<close>
  with \<open>unicode.IsSpace\<close>, which decodes UTF-8. A rune is a code point.
\<close>

unbundle bit_operations_syntax

type_synonym rune = nat

definition byte :: "char \<Rightarrow> nat" where
  "byte c = of_char c"

definition RuneError :: rune where
  "RuneError = 0xFFFD"

definition RuneSelf :: nat where
  "RuneSelf = 0x80"

definition UTFMax :: int where
  "UTFMax = 4"

definition lead :: "nat \<Rightarrow> (nat \<times> nat \<times> nat) option" where
  \<comment> \<open>the table \<open>first\<close> with \<open>acceptRanges\<close>: for a lead byte, the length of the
      sequence and the range of its second byte; \<open>None\<close> for a byte that starts none\<close>
  "lead b =
     (if 0xC2 \<le> b \<and> b \<le> 0xDF then Some (2, 0x80, 0xBF)
      else if b = 0xE0 then Some (3, 0xA0, 0xBF)
      else if 0xE1 \<le> b \<and> b \<le> 0xEC then Some (3, 0x80, 0xBF)
      else if b = 0xED then Some (3, 0x80, 0x9F)
      else if 0xEE \<le> b \<and> b \<le> 0xEF then Some (3, 0x80, 0xBF)
      else if b = 0xF0 then Some (4, 0x90, 0xBF)
      else if 0xF1 \<le> b \<and> b \<le> 0xF3 then Some (4, 0x80, 0xBF)
      else if b = 0xF4 then Some (4, 0x80, 0x8F)
      else None)"

definition DecodeRuneInString :: "string \<Rightarrow> rune \<times> nat" where
  \<comment> \<open>the first rune of \<open>s\<close> and its width in bytes; \<open>(RuneError, 1)\<close> for an invalid
      encoding, \<open>(RuneError, 0)\<close> for the empty string\<close>
  "DecodeRuneInString s =
     (case s of
        [] \<Rightarrow> (RuneError, 0)
      | c0 # _ \<Rightarrow>
          let s0 = byte c0 in
          if s0 < RuneSelf then (s0, 1)
          else
            (case lead s0 of
               None \<Rightarrow> (RuneError, 1)
             | Some (sz, lo, hi) \<Rightarrow>
                 if length s < sz then (RuneError, 1)
                 else
                   let s1 = byte (s ! 1) in
                   if s1 < lo \<or> hi < s1 then (RuneError, 1)
                   else if sz \<le> 2 then (push_bit 6 (s0 AND 0x1F) OR (s1 AND 0x3F), 2)
                   else
                     let s2 = byte (s ! 2) in
                     if s2 < 0x80 \<or> 0xBF < s2 then (RuneError, 1)
                     else if sz \<le> 3 then
                       (push_bit 12 (s0 AND 0x0F) OR push_bit 6 (s1 AND 0x3F)
                          OR (s2 AND 0x3F), 3)
                     else
                       let s3 = byte (s ! 3) in
                       if s3 < 0x80 \<or> 0xBF < s3 then (RuneError, 1)
                       else
                         (push_bit 18 (s0 AND 0x07) OR push_bit 12 (s1 AND 0x3F)
                            OR push_bit 6 (s2 AND 0x3F) OR (s3 AND 0x3F), 4)))"

definition RuneStart :: "char \<Rightarrow> bool" where
  \<comment> \<open>\<open>b&0xC0 != 0x80\<close>: not a continuation byte\<close>
  "RuneStart b = (byte b AND 0xC0 \<noteq> 0x80)"

function back_scan :: "string \<Rightarrow> int \<Rightarrow> int \<Rightarrow> int" where
  \<comment> \<open>\<open>for start--; start >= lim; start-- { if RuneStart(s[start]) { break } }\<close>,
      entered after the first decrement; \<open>lim\<close> is never negative in the caller, so
      the test \<open>0 \<le> start\<close> adds nothing there\<close>
  "back_scan s lim start =
     (if start \<ge> lim \<and> 0 \<le> start then
        (if RuneStart (s ! nat start) then start else back_scan s lim (start - 1))
      else start)"
  by pat_completeness auto
termination
  by (relation "measure (\<lambda>(s, lim, start). nat (start + 1))") auto

declare back_scan.simps [simp del]

definition DecodeLastRuneInString :: "string \<Rightarrow> rune \<times> nat" where
  "DecodeLastRuneInString s =
     (let end = int (length s) in
      if end = 0 then (RuneError, 0)
      else
        let r = byte (s ! nat (end - 1)) in
        if r < RuneSelf then (r, 1)
        else
          let lim = (if end - UTFMax < 0 then 0 else end - UTFMax);
              start0 = back_scan s lim (end - 2);
              start = (if start0 < 0 then 0 else start0);
              (r, size) = DecodeRuneInString (drop (nat start) s)
          in if start + int size \<noteq> end then (RuneError, 1) else (r, size))"

text \<open>Every decoded rune of a non-empty string is at least one byte wide: the loops
  that walk a string rune by rune make progress.\<close>

lemma lead_size: "lead b = Some (sz, lo, hi) \<Longrightarrow> sz = 2 \<or> sz = 3 \<or> sz = 4"
  by (simp add: lead_def split: if_splits)

lemma DecodeRuneInString_width:
  assumes "s \<noteq> []"
  shows "1 \<le> snd (DecodeRuneInString s) \<and> snd (DecodeRuneInString s) \<le> length s"
proof -
  obtain c0 cs where s: "s = c0 # cs" using assms by (cases s) auto
  show ?thesis
  proof (cases "lead (byte c0)")
    case None
    then show ?thesis by (simp add: s DecodeRuneInString_def Let_def)
  next
    case (Some t)
    obtain sz lo hi where t: "t = (sz, lo, hi)" by (cases t) auto
    consider "sz = 2" | "sz = 3" | "sz = 4" using lead_size Some t by blast
    then show ?thesis
    proof cases
      case 1
      then show ?thesis
        using Some t by (simp add: s DecodeRuneInString_def Let_def Suc_le_eq)
    next
      case 2
      then show ?thesis
        using Some t by (simp add: s DecodeRuneInString_def Let_def Suc_le_eq)
    next
      case 3
      then show ?thesis
        using Some t by (simp add: s DecodeRuneInString_def Let_def Suc_le_eq)
    qed
  qed
qed

lemma back_scan_le: "back_scan s lim start \<le> start"
proof (induction s lim start rule: back_scan.induct)
  case (1 s lim start)
  show ?case
  proof (cases "start \<ge> lim \<and> 0 \<le> start \<and> \<not> RuneStart (s ! nat start)")
    case True
    then have "back_scan s lim start = back_scan s lim (start - 1)"
      by (subst back_scan.simps) simp
    moreover have "back_scan s lim (start - 1) \<le> start - 1"
      using True by (intro "1.IH") auto
    ultimately show ?thesis by simp
  next
    case False
    then have "back_scan s lim start = start"
      by (subst back_scan.simps) auto
    then show ?thesis by simp
  qed
qed


lemma DecodeLastRuneInString_width:
  assumes "s \<noteq> []"
  shows "1 \<le> snd (DecodeLastRuneInString s) \<and> snd (DecodeLastRuneInString s) \<le> length s"
proof -
  define e where "e = int (length s)"
  define lim where "lim = (if e - UTFMax < 0 then 0 else e - UTFMax)"
  define start where "start = (if back_scan s lim (e - 2) < 0 then 0 else back_scan s lim (e - 2))"
  have e: "1 \<le> e" using assms by (cases s) (auto simp: e_def)
  have start: "0 \<le> start" "start \<le> e - 1"
    using back_scan_le [of s lim "e - 2"] e by (auto simp: start_def)
  obtain r size where d: "DecodeRuneInString (drop (nat start) s) = (r, size)"
    by (cases "DecodeRuneInString (drop (nat start) s)") auto
  have unfold: "DecodeLastRuneInString s =
      (if byte (s ! nat (e - 1)) < RuneSelf then (byte (s ! nat (e - 1)), 1)
       else if start + int size \<noteq> e then (RuneError, 1) else (r, size))"
    using e d unfolding DecodeLastRuneInString_def Let_def e_def [symmetric]
      lim_def [symmetric] start_def [symmetric]
    by simp
  have "start + int size = e \<Longrightarrow> 1 \<le> size \<and> size \<le> length s"
    using start by (auto simp: e_def)
  then show ?thesis
    using e by (auto simp: unfold e_def)
qed

definition IsSpace :: "rune \<Rightarrow> bool" where
  \<comment> \<open>Latin-1 by the switch of the source, the rest by the table \<open>White_Space\<close>\<close>
  "IsSpace r =
     (if r \<le> 0xFF then r \<in> {0x09, 0x0A, 0x0B, 0x0C, 0x0D, 0x20, 0x85, 0xA0}
      else r = 0x1680 \<or> (0x2000 \<le> r \<and> r \<le> 0x200A) \<or> r = 0x2028 \<or> r = 0x2029
           \<or> r = 0x202F \<or> r = 0x205F \<or> r = 0x3000)"

definition asciiSpace :: "char \<Rightarrow> bool" where
  \<comment> \<open>tab, line feed, vertical tab, form feed, carriage return, space\<close>
  "asciiSpace c = (byte c \<in> {0x09, 0x0A, 0x0B, 0x0C, 0x0D, 0x20})"

function indexFunc :: "string \<Rightarrow> (rune \<Rightarrow> bool) \<Rightarrow> bool \<Rightarrow> nat option" where
  \<comment> \<open>\<open>for i, r := range s { if f(r) == truth { return i } }; return -1\<close>\<close>
  "indexFunc [] f truth = None"
| "indexFunc (c # cs) f truth =
     (let (r, w) = DecodeRuneInString (c # cs) in
      if f r = truth then Some 0
      else map_option (\<lambda>i. w + i) (indexFunc (drop w (c # cs)) f truth))"
  by pat_completeness auto
termination
proof (relation "measure (\<lambda>(s, f, truth). length s)")
  fix c cs and f :: "rune \<Rightarrow> bool" and truth x r w
  assume "x = DecodeRuneInString (c # cs)" "(r, w) = x"
  then have "1 \<le> w"
    using DecodeRuneInString_width [of "c # cs"] by (cases "DecodeRuneInString (c # cs)") auto
  then show "((drop w (c # cs), f, truth), (c # cs, f, truth))
      \<in> measure (\<lambda>(s, f, truth). length s)"
    by simp
qed simp

function lastIndexFunc :: "string \<Rightarrow> (rune \<Rightarrow> bool) \<Rightarrow> bool \<Rightarrow> nat option" where
  \<comment> \<open>\<open>for i := len(s); i > 0; { r, size := DecodeLastRuneInString(s[0:i]); i -= size;
      if f(r) == truth { return i } }; return -1\<close>, the argument being \<open>s[0:i]\<close>\<close>
  "lastIndexFunc s f truth =
     (if s = [] then None
      else
        let (r, size) = DecodeLastRuneInString s;
            i = length s - size
        in if f r = truth then Some i else lastIndexFunc (take i s) f truth)"
  by pat_completeness auto
termination
proof (relation "measure (\<lambda>(s, f, truth). length s)")
  fix s :: string and f :: "rune \<Rightarrow> bool" and truth x r size i
  assume "s \<noteq> []" "x = DecodeLastRuneInString s" "(r, size) = x" "i = length s - size"
  then have "1 \<le> size"
    using DecodeLastRuneInString_width [of s] by (cases "DecodeLastRuneInString s") auto
  with \<open>s \<noteq> []\<close> \<open>i = length s - size\<close>
  show "((take i s, f, truth), (s, f, truth)) \<in> measure (\<lambda>(s, f, truth). length s)"
    by simp
qed simp

declare lastIndexFunc.simps [simp del]

definition TrimLeftFunc :: "string \<Rightarrow> (rune \<Rightarrow> bool) \<Rightarrow> string" where
  "TrimLeftFunc s f = (case indexFunc s f False of None \<Rightarrow> [] | Some i \<Rightarrow> drop i s)"

definition TrimRightFunc :: "string \<Rightarrow> (rune \<Rightarrow> bool) \<Rightarrow> string" where
  \<comment> \<open>the index found is the start of the last rune that stays; \<open>-1 + 1 = 0\<close>\<close>
  "TrimRightFunc s f =
     (case lastIndexFunc s f False of
        None \<Rightarrow> take 0 s
      | Some i \<Rightarrow>
          if byte (s ! i) \<ge> RuneSelf
          then (let (r, wid) = DecodeRuneInString (drop i s) in take (i + wid) s)
          else take (i + 1) s)"

definition TrimFunc :: "string \<Rightarrow> (rune \<Rightarrow> bool) \<Rightarrow> string" where
  "TrimFunc s f = TrimRightFunc (TrimLeftFunc s f) f"

fun trim_start :: "string \<Rightarrow> string + string" where
  \<comment> \<open>the first loop of \<open>TrimSpace\<close>, on \<open>s[start:]\<close>: \<open>Inl\<close> at a byte that is not ASCII
      (the caller falls back to \<open>TrimFunc\<close>), \<open>Inr\<close> when the loop ends\<close>
  "trim_start [] = Inr []"
| "trim_start (c # cs) =
     (if byte c \<ge> RuneSelf then Inl (c # cs)
      else if asciiSpace c then trim_start cs
      else Inr (c # cs))"

fun trim_stop :: "string \<Rightarrow> nat \<Rightarrow> string" where
  \<comment> \<open>the second loop, on \<open>t = s[start:]\<close> with \<open>stop\<close> counted from \<open>start\<close>\<close>
  "trim_stop t 0 = take 0 t"
| "trim_stop t (Suc k) =
     (let c = t ! k in
      if byte c \<ge> RuneSelf then TrimRightFunc (take (Suc k) t) IsSpace
      else if asciiSpace c then trim_stop t k
      else take (Suc k) t)"

definition TrimSpace :: "string \<Rightarrow> string" where
  "TrimSpace s =
     (case trim_start s of
        Inl rest \<Rightarrow> TrimFunc rest IsSpace
      | Inr t \<Rightarrow> trim_stop t (length t))"

section \<open>The connection handler\<close>

type_synonym LogLevel = int


definition LogInfo :: LogLevel where
  "LogInfo = 1"

definition LogDebug :: LogLevel where
  "LogDebug = 2"

record Config =
  Listen :: string
  LogFile :: string
  LogLevel :: string
  FallbackAddress :: string
  DropUser :: string
  DropGroup :: string

text \<open>
  What the program does to the outside, in order. A handler gives a line to the
  logger, writes a string to its connection, closes the connection, or brings the
  process down by a panic. The main goroutine prints to standard output, exits, makes
  the system calls that change the process's identity, calls \<open>dropPrivileges\<close>,
  \<open>net.Listen\<close> and \<open>ln.Accept\<close>, and starts a goroutine for a connection, recorded
  with what that handler does. The global \<open>currentLogLevel\<close> is read by the logging
  helpers; it is passed as an argument.
\<close>

datatype event =
    Log string
  | Write string
  | Close
  | Crash
  | Stdout string
  | Exit int
  | Sys_Setgid int
  | Sys_Setuid int
  | Call_dropPrivileges string string
  | Call_Listen string
  | Call_Accept
  | Go "event list"

definition logError :: "string \<Rightarrow> event list" where
  "logError msg = [Log (''[ERROR] '' @ msg)]"

definition logInfo :: "LogLevel \<Rightarrow> string \<Rightarrow> event list" where
  "logInfo currentLogLevel msg =
     (if currentLogLevel \<ge> LogInfo then [Log (''[INFO] '' @ msg)] else [])"

definition logDebug :: "LogLevel \<Rightarrow> string \<Rightarrow> event list" where
  "logDebug currentLogLevel msg =
     (if currentLogLevel \<ge> LogDebug then [Log (''[DEBUG] '' @ msg)] else [])"

definition ReadString :: "string \<Rightarrow> char \<Rightarrow> string \<times> string option" where
  \<comment> \<open>\<open>bufio.Reader.ReadString\<close> on a connection that delivers the bytes \<open>incoming\<close> and
      then ends or fails: the bytes up to and including the first delimiter, or what
      was read and an error\<close>
  "ReadString incoming delim =
     (case Index incoming delim of
        Some i \<Rightarrow> (take (i + 1) incoming, None)
      | None \<Rightarrow> (incoming, Some ''EOF''))"

definition handle_address :: "LogLevel \<Rightarrow> Config \<Rightarrow> string \<Rightarrow> event list option" where
  \<comment> \<open>\<open>handle\<close> from the extraction of \<open>address\<close> on, the deferred Close left to
      \<open>handle\<close>; \<open>None\<close> when a callee panics (before anything is logged or written)\<close>
  "handle_address currentLogLevel cfg address =
     (if \<not> HasPrefix address ''SRS0='' \<and> \<not> HasPrefix address ''SRS1='' then do {
        clean \<leftarrow> isCleanEmail address;
        if clean then
          Some (logDebug currentLogLevel (''Address: '' @ address @ '', no decoding required'')
                @ [Write (''200 '' @ address @ ''\<newline>'')])
        else if FallbackAddress cfg \<noteq> [] then
          Some (logError (''Invalid address: '' @ address @ '', returning fallback_address: ''
                          @ FallbackAddress cfg)
                @ [Write (''200 '' @ FallbackAddress cfg @ ''\<newline>'')])
        else
          Some (logError (''Invalid address: '' @ address
                          @ '', no fallback_address set, 500 invalid request'')
                @ [Write ''500 invalid request\<newline>''])
      } else do {
        res \<leftarrow> decodeSRS address;
        case res of
          Inl err \<Rightarrow>
            if FallbackAddress cfg \<noteq> [] then
              Some (logError (''Invalid SRS: '' @ address @ '' ('' @ err
                              @ ''), returning fallback_address: '' @ FallbackAddress cfg)
                    @ [Write (''200 '' @ FallbackAddress cfg @ ''\<newline>'')])
            else
              Some (logError (''Invalid SRS: '' @ address @ '' ('' @ err
                              @ ''), no fallback_address set, 500 invalid request'')
                    @ [Write ''500 invalid request\<newline>''])
        | Inr decoded \<Rightarrow>
            Some (logInfo currentLogLevel
                    (''Resolved: '' @ address @ '' '' @ [CHR 0xE2, CHR 0x86, CHR 0x92] @ '' ''
                     @ decoded)
                  @ [Write (''200 '' @ decoded @ ''\<newline>'')])
      })"

definition handle :: "LogLevel \<Rightarrow> Config \<Rightarrow> string \<Rightarrow> event list" where
  \<comment> \<open>one connection; \<open>defer conn.Close()\<close> runs last on every path, also on a panic\<close>
  "handle currentLogLevel cfg incoming =
     (case ReadString incoming CHR 0x0A of
        (line, Some err) \<Rightarrow> [Write ''500 read error\<newline>'', Close]
      | (line, None) \<Rightarrow>
          let line = TrimSpace line in
          if \<not> HasPrefix line ''get '' then [Write ''500 invalid request\<newline>'', Close]
          else
            (case slice_from line 4 of
               None \<Rightarrow> [Close, Crash]
             | Some rest \<Rightarrow>
                 (case handle_address currentLogLevel cfg (TrimSpace rest) of
                    None \<Rightarrow> [Close, Crash]
                  | Some evs \<Rightarrow> evs @ [Close])))"

definition wire :: "event list \<Rightarrow> event list" where
  \<comment> \<open>a trace without its log lines: what the peer and the process see\<close>
  "wire tr = filter (\<lambda>e. case e of Log msg \<Rightarrow> False | _ \<Rightarrow> True) tr"

section \<open>Start-up: privileges, listener, accept loop\<close>

text \<open>
  The operating system and the libraries \<open>os/user\<close>, \<open>strconv\<close>, \<open>toml\<close>, \<open>log\<close> and
  \<open>net\<close> are parameters: what each call returns is a field of a record, an error
  being its text. Only the effective user and group of the process change, by the
  two system calls of \<open>dropPrivileges\<close>.
\<close>

record os =
  LookupGroup :: "string \<Rightarrow> string + string"
  Lookup :: "string \<Rightarrow> string + string"
  Atoi :: "string \<Rightarrow> string + int"
  Itoa :: "int \<Rightarrow> string"
  Setgid :: "int \<Rightarrow> string option"
  Setuid :: "int \<Rightarrow> string option"
  LookupId :: "string \<Rightarrow> string + string \<times> string"
  LookupGroupId :: "string \<Rightarrow> string + string \<times> string"
  euid :: int
  egid :: int

definition version :: string where
  "version = ''1.0.0''"

definition logFatal :: "string \<Rightarrow> event list" where
  \<comment> \<open>\<open>log.Fatalf\<close>: the line, then \<open>os.Exit(1)\<close>\<close>
  "logFatal msg = [Log (''[FATAL] '' @ msg), Exit 1]"

definition set_gid_section :: "os \<Rightarrow> string \<Rightarrow> string option \<times> os \<times> event list" where
  \<comment> \<open>\<open>LookupGroup\<close> gives the group's \<open>Gid\<close>; an error returned, the state, the calls made\<close>
  "set_gid_section sys targetGroup =
     (if targetGroup \<noteq> [] then
        (case LookupGroup sys targetGroup of
           Inl err \<Rightarrow> (Some (''lookup group: '' @ err), sys, [])
         | Inr g_Gid \<Rightarrow>
             (case Atoi sys g_Gid of
                Inl err \<Rightarrow> (Some (''bad GID: '' @ err), sys, [])
              | Inr gid \<Rightarrow>
                  (case Setgid sys gid of
                     Some err \<Rightarrow> (Some (''setgid failed: '' @ err), sys, [Sys_Setgid gid])
                   | None \<Rightarrow> (None, sys\<lparr>egid := gid\<rparr>, [Sys_Setgid gid]))))
      else (None, sys, []))"

definition set_uid_section :: "os \<Rightarrow> string \<Rightarrow> string option \<times> os \<times> event list" where
  "set_uid_section sys targetUser =
     (if targetUser \<noteq> [] then
        (case Lookup sys targetUser of
           Inl err \<Rightarrow> (Some (''lookup user: '' @ err), sys, [])
         | Inr u_Uid \<Rightarrow>
             (case Atoi sys u_Uid of
                Inl err \<Rightarrow> (Some (''bad UID: '' @ err), sys, [])
              | Inr uid \<Rightarrow>
                  (case Setuid sys uid of
                     Some err \<Rightarrow> (Some (''setuid failed: '' @ err), sys, [Sys_Setuid uid])
                   | None \<Rightarrow> (None, sys\<lparr>euid := uid\<rparr>, [Sys_Setuid uid]))))
      else (None, sys, []))"

definition check_section :: "LogLevel \<Rightarrow> os \<Rightarrow> string option \<times> event list" where
  \<comment> \<open>\<open>LookupId\<close> gives \<open>(Username, Uid)\<close>, \<open>LookupGroupId\<close> gives \<open>(Name, Gid)\<close>\<close>
  "check_section currentLogLevel sys =
     (case LookupId sys (Itoa sys (euid sys)) of
        Inl err \<Rightarrow> (Some (''lookup new user: '' @ err), [])
      | Inr (newUser_Username, newUser_Uid) \<Rightarrow>
          (case LookupGroupId sys (Itoa sys (egid sys)) of
             Inl err \<Rightarrow> (Some (''lookup new group: '' @ err), [])
           | Inr (newGroup_Name, newGroup_Gid) \<Rightarrow>
               (None,
                (if newUser_Username = ''root''
                 then logError ''Warning! Running as root user! Not dropping privileges! Be careful!''
                 else [])
                @ (if newGroup_Name = ''root''
                   then logError ''Warning! Running as root group! Not dropping privileges! Be careful!''
                   else [])
                @ logInfo currentLogLevel
                    (''Running as user: '' @ newUser_Username @ '' (UID '' @ newUser_Uid
                     @ ''), group: '' @ newGroup_Name @ '' (GID '' @ newGroup_Gid @ '')''))))"

definition dropPrivileges ::
  "LogLevel \<Rightarrow> os \<Rightarrow> string \<Rightarrow> string \<Rightarrow> string option \<times> os \<times> event list" where
  \<comment> \<open>the three sections in order, each left at its first error\<close>
  "dropPrivileges currentLogLevel sys targetUser targetGroup =
     (case set_gid_section sys targetGroup of
        (Some err, sys1, ev1) \<Rightarrow> (Some err, sys1, ev1)
      | (None, sys1, ev1) \<Rightarrow>
          (case set_uid_section sys1 targetUser of
             (Some err, sys2, ev2) \<Rightarrow> (Some err, sys2, ev1 @ ev2)
           | (None, sys2, ev2) \<Rightarrow>
               (case check_section currentLogLevel sys2 of
                  (err, ev3) \<Rightarrow> (err, sys2, ev1 @ ev2 @ ev3))))"

text \<open>
  What \<open>main\<close> meets: the flags, the outcome of \<open>LoadConfig\<close> and of \<open>InitLogging\<close>
  (the level it leaves in \<open>currentLogLevel\<close>), the system, the outcome of
  \<open>net.Listen\<close>, and the outcomes of the calls of \<open>ln.Accept\<close> observed so far: an error,
  or a connection given by the bytes it delivers. The accept loop never ends by
  itself; a trace of \<open>main\<close> is its behaviour over a finite number of accepts.
\<close>

record environment =
  showVersion :: bool
  showVersionLong :: bool
  LoadConfig :: "string \<Rightarrow> string + Config"
  InitLogging :: "Config \<Rightarrow> string + LogLevel"
  system :: os
  net_Listen :: "string \<Rightarrow> string option"
  accepts :: "(string + string) list"

definition version_text :: string where
  \<comment> \<open>\<open>fmt.Println\<close> puts a space between operands and a newline at the end\<close>
  "version_text =
     ''srs-resolver - Lightweight SRS decoder for Postfix autoresponders\<newline>'' @ '' ''
     @ ''Version: '' @ '' '' @ version @ '' '' @ ''\<newline>'' @ '' ''
     @ ''Copyright '' @ [CHR 0xC2, CHR 0xA9]
     @ '' 2025 Damian Szlage / Umbrella Dev Systems / DriftZone.pl\<newline>'' @ '' ''
     @ ''\<newline>License: GNU General Public License v3 or later'' @ ''\<newline>''"

fun accept_loop :: "LogLevel \<Rightarrow> Config \<Rightarrow> (string + string) list \<Rightarrow> event list" where
  \<comment> \<open>\<open>for { conn, err := ln.Accept(); ... }\<close> over the outcomes of Accept\<close>
  "accept_loop currentLogLevel cfg [] = []"
| "accept_loop currentLogLevel cfg (Inl err # rest) =
     Call_Accept # logError (''Connection error: '' @ err)
       @ accept_loop currentLogLevel cfg rest"
| "accept_loop currentLogLevel cfg (Inr conn # rest) =
     Call_Accept # Go (handle currentLogLevel cfg conn)
       # accept_loop currentLogLevel cfg rest"

definition main :: "environment \<Rightarrow> event list" where
  "main env =
     (if showVersion env \<or> showVersionLong env then [Stdout version_text] else [])
     @ (case LoadConfig env ''/etc/srs-resolver/srs-resolver.conf'' of
          Inl err \<Rightarrow> [Stdout (''[FATAL] Config error: '' @ '' '' @ err @ ''\<newline>''), Exit 1]
        | Inr cfg \<Rightarrow>
            (case InitLogging env cfg of
               Inl err \<Rightarrow>
                 [Stdout (''[FATAL] Logging error: '' @ '' '' @ err @ ''\<newline>''), Exit 1]
             | Inr currentLogLevel \<Rightarrow>
                 logInfo currentLogLevel (''srs-resolver version '' @ version @ '' starting...'')
                 @ [Call_dropPrivileges (DropUser cfg) (DropGroup cfg)]
                 @ (case dropPrivileges currentLogLevel (system env) (DropUser cfg)
                           (DropGroup cfg) of
                      (Some err, sys', evs) \<Rightarrow>
                        evs @ logFatal (''Dropping privileges failed: '' @ err)
                    | (None, sys', evs) \<Rightarrow>
                        evs @ [Call_Listen (Listen cfg)]
                        @ (case net_Listen env (Listen cfg) of
                             Some err \<Rightarrow> logFatal (''Listen error: '' @ err)
                           | None \<Rightarrow>
                               logInfo currentLogLevel (''Listening on '' @ Listen cfg)
                               @ accept_loop currentLogLevel cfg (accepts env)))))"

section \<open>Observing a trace of \<open>main\<close>\<close>

definition is_dropPrivileges :: "event \<Rightarrow> bool" where
  "is_dropPrivileges e = (case e of Call_dropPrivileges u g \<Rightarrow> True | _ \<Rightarrow> False)"

definition is_Listen :: "event \<Rightarrow> bool" where
  "is_Listen e = (case e of Call_Listen a \<Rightarrow> True | _ \<Rightarrow> False)"

definition is_Accept :: "event \<Rightarrow> bool" where
  "is_Accept e = (case e of Call_Accept \<Rightarrow> True | _ \<Rightarrow> False)"

definition neutral :: "event \<Rightarrow> bool" where
  \<comment> \<open>an event that is none of the three calls\<close>
  "neutral e = (\<not> is_dropPrivileges e \<and> \<not> is_Listen e \<and> \<not> is_Accept e)"

fun preceded :: "('a \<Rightarrow> bool) \<Rightarrow> ('a \<Rightarrow> bool) \<Rightarrow> 'a list \<Rightarrow> bool \<Rightarrow> bool" where
  \<comment> \<open>every \<open>Q\<close> event of the trace comes after some \<open>P\<close> event; \<open>seen\<close> tells whether
      a \<open>P\<close> event has already happened\<close>
  "preceded P Q [] seen = True"
| "preceded P Q (e # es) seen = ((if Q e then seen else True) \<and> preceded P Q es (seen \<or> P e))"

definition example_config :: Config where
  "example_config =
     \<lparr>Listen = ''127.0.0.1:10022'', LogFile = ''/var/log/srs-resolver.log'',
      LogLevel = ''info'', FallbackAddress = ''root@example.com'',
      DropUser = ''nobody'', DropGroup = ''nogroup''\<rparr>"

definition example_os :: os where
  \<comment> \<open>a system started as root in which \<open>nobody\<close> and \<open>nogroup\<close> have the id 65534\<close>
  "example_os =
     \<lparr>LookupGroup = (\<lambda>name. if name = ''nogroup'' then Inr ''65534'' else Inl ''unknown group''),
      Lookup = (\<lambda>name. if name = ''nobody'' then Inr ''65534'' else Inl ''unknown user''),
      Atoi = (\<lambda>s. if s = ''65534'' then Inr 65534 else Inl ''invalid syntax''),
      Itoa = (\<lambda>i. if i = 65534 then ''65534'' else ''0''),
      Setgid = (\<lambda>gid. None),
      Setuid = (\<lambda>uid. None),
      LookupId = (\<lambda>uid. if uid = ''65534'' then Inr (''nobody'', ''65534'') else Inr (''root'', ''0'')),
      LookupGroupId =
        (\<lambda>gid. if gid = ''65534'' then Inr (''nogroup'', ''65534'') else Inr (''root'', ''0'')),
      euid = 0, egid = 0\<rparr>"

definition example_environment :: environment where
  \<comment> \<open>a start that succeeds at every step, followed by one accepted connection\<close>
  "example_environment =
     \<lparr>showVersion = False, showVersionLong = False,
      LoadConfig = (\<lambda>path. Inr example_config),
      InitLogging = (\<lambda>cfg. Inr LogInfo),
      system = example_os,
      net_Listen = (\<lambda>addr. None),
      accepts = [Inr ''get user@example.com\<newline>'']\<rparr>"

section \<open>Splitting\<close>

lemma Index_None_iff: "Index s c = None \<longleftrightarrow> c \<notin> set s"
  by (induction s) auto

lemma Index_append_sep: "c \<notin> set a \<Longrightarrow> Index (a @ c # r) c = Some (length a)"
  by (induction a) auto

lemma Index_Some_iff:
  "Index s c = Some m \<longleftrightarrow> m < length s \<and> s ! m = c \<and> c \<notin> set (take m s)"
proof (induction s arbitrary: m)
  case Nil
  then show ?case by simp
next
  case (Cons x xs)
  show ?case
  proof (cases "x = c")
    case True
    then show ?thesis by (cases m) auto
  next
    case False
    then show ?thesis using Cons by (cases m) auto
  qed
qed

lemma Index_takeWhile:
  "Index s c = Some m \<Longrightarrow> m = length (takeWhile (\<lambda>x. x \<noteq> c) s)"
  by (induction s arbitrary: m) (auto split: if_splits)

lemma split_loop_cut:
  "c \<notin> set a \<Longrightarrow> split_loop (a @ c # r) c 0 (Suc k) = a # split_loop r c 0 k"
  by (simp add: Index_append_sep)

lemma Count_le_length: "Count s c \<le> length s"
  by (simp add: Count_def)

lemma Count_Index_None: "Index s c = None \<Longrightarrow> Count s c = 0"
  by (induction s) (auto simp: Count_def split: if_splits)

lemma Count_Index_Some:
  "Index s c = Some m \<Longrightarrow> Count s c = Suc (Count (drop (Suc m) s) c)"
  by (induction s arbitrary: m) (auto simp: Count_def split: if_splits)

lemma length_split_loop:
  "length (split_loop s c sv k) = Suc (min k (Count s c))"
proof (induction k arbitrary: s)
  case 0
  then show ?case by simp
next
  case (Suc k)
  show ?case
  proof (cases "Index s c")
    case None
    then show ?thesis by (simp add: Count_Index_None)
  next
    case (Some m)
    then show ?thesis using Suc [of "drop (Suc m) s"] by (simp add: Count_Index_Some)
  qed
qed

lemma length_SplitN_5: "length (SplitN s c 5) = min 5 (Suc (Count s c))"
  using Count_le_length [of s c]
  by (auto simp: SplitN_def genSplit_def length_split_loop Let_def min_def)

lemma length_Split: "length (Split s c) = Suc (Count s c)"
  using Count_le_length [of s c]
  by (auto simp: Split_def genSplit_def length_split_loop Let_def min_def)

lemma takeWhile_notin: "c \<notin> set s \<Longrightarrow> takeWhile (\<lambda>x. x \<noteq> c) s = s"
  by (induction s) auto

lemma SplitN_fields:
  assumes "c \<notin> set a" "c \<notin> set b" "c \<notin> set d" "c \<notin> set e"
  shows "SplitN (a @ c # b @ c # d @ c # e @ c # r) c 5 = [a, b, d, e, r]"
proof -
  let ?s = "a @ c # b @ c # d @ c # e @ c # r"
  have "SplitN ?s c 5 = split_loop ?s c 0 (Suc (Suc (Suc (Suc 0))))"
    by (simp add: SplitN_def genSplit_def Let_def eval_nat_numeral)
  also have "\<dots> = [a, b, d, e, r]"
    using assms by (simp add: Index_append_sep)
  finally show ?thesis .
qed

lemma Split_loop: "Split s c = split_loop s c 0 (Count s c)"
  using Count_le_length [of s c] by (simp add: Split_def genSplit_def Let_def)

lemma Split_first: "at (Split s c) 0 = Some (takeWhile (\<lambda>x. x \<noteq> c) s)"
proof (cases "Index s c")
  case None
  then have "c \<notin> set s" by (simp add: Index_None_iff)
  moreover have "Split s c = [s]"
    using None by (simp add: Split_loop Count_Index_None)
  ultimately show ?thesis by (simp add: at_def takeWhile_notin)
next
  case (Some m)
  have "Split s c = split_loop s c 0 (Suc (Count (drop (Suc m) s) c))"
    using Count_Index_Some [OF Some] by (simp add: Split_loop)
  then have "at (Split s c) 0 = Some (take m s)"
    using Some by (simp add: at_def)
  moreover have "take m s = takeWhile (\<lambda>x. x \<noteq> c) s"
    using Some by (induction s arbitrary: m) (auto split: if_splits)
  ultimately show ?thesis by simp
qed

lemma decodeSRS_fields:
  assumes "length (SplitN s CHR ''='' 5) = 5"
  shows "decodeSRS s = Some (Inr (takeWhile (\<lambda>x. x \<noteq> CHR ''@'') (SplitN s CHR ''='' 5 ! 4)
            @ ''@'' @ SplitN s CHR ''='' 5 ! 3))"
proof -
  let ?l = "SplitN s CHR ''='' 5 ! 4"
  have "\<not> Contains ?l CHR ''@'' \<Longrightarrow> CHR ''@'' \<notin> set ?l"
    by (simp add: Contains_def Index_None_iff)
  moreover have "at (SplitN s CHR ''='' 5) 3 = Some (SplitN s CHR ''='' 5 ! 3)"
    and "at (SplitN s CHR ''='' 5) 4 = Some ?l"
    using assms by (simp_all add: at_def)
  ultimately show ?thesis
    using assms by (simp add: decodeSRS_def Let_def Split_first takeWhile_notin)
qed

lemma decodeSRS_short:
  assumes "length (SplitN s CHR ''='' 5) \<noteq> 5"
  shows "decodeSRS s = Some (Inl ''SRS format - wrong number of parts'')"
  using assms by (simp add: decodeSRS_def Let_def)

section \<open>The decoder\<close>

text \<open>
  C2. For every string \<open>SRS0=H=T=D=L\<close> or \<open>SRS1=H=T=D=L\<close> in which \<open>H\<close>, \<open>T\<close> and \<open>D\<close>
  contain no \<open>=\<close> and \<open>L\<close> contains no \<open>@\<close> (\<open>L\<close> may contain further \<open>=\<close>),
  \<open>decodeSRS\<close> succeeds and returns exactly \<open>L@D\<close>.
\<close>

theorem decodeSRS_plain_local:
  assumes "p = ''SRS0'' \<or> p = ''SRS1''"
    and "CHR ''='' \<notin> set H" and "CHR ''='' \<notin> set T" and "CHR ''='' \<notin> set D"
    and "CHR ''@'' \<notin> set L"
  shows "decodeSRS (p @ ''='' @ H @ ''='' @ T @ ''='' @ D @ ''='' @ L) = Some (Inr (L @ ''@'' @ D))"
proof -
  have p: "CHR ''='' \<notin> set p" using assms(1) by auto
  have parts: "SplitN (p @ CHR ''='' # H @ CHR ''='' # T @ CHR ''='' # D @ CHR ''='' # L) CHR ''='' 5
      = [p, H, T, D, L]"
    by (rule SplitN_fields [OF p assms(2,3,4)])
  show ?thesis
    using decodeSRS_fields [of "p @ ''='' @ H @ ''='' @ T @ ''='' @ D @ ''='' @ L"] assms(5)
    by (simp add: parts takeWhile_notin)
qed

theorem decodeSRS_plain_local_witness:
  "decodeSRS ''SRS0=abc123=12345=example.com=damian'' = Some (Inr ''damian@example.com'')"
  using decodeSRS_plain_local [of "''SRS0''" "''abc123''" "''12345''" "''example.com''" "''damian''"]
  by simp

text \<open>
  C3. For every such string whose fifth field \<open>L\<close> contains an \<open>@\<close>, \<open>decodeSRS\<close>
  succeeds and returns \<open>L1@D\<close>, where \<open>L1\<close> is the part of \<open>L\<close> strictly before its first
  \<open>@\<close> and \<open>D\<close> is the fourth field: the domain embedded in \<open>L\<close> is dropped.
\<close>

theorem decodeSRS_embedded_address:
  assumes "p = ''SRS0'' \<or> p = ''SRS1''"
    and "CHR ''='' \<notin> set H" and "CHR ''='' \<notin> set T" and "CHR ''='' \<notin> set D"
    and "CHR ''@'' \<notin> set L1"
  shows "decodeSRS (p @ ''='' @ H @ ''='' @ T @ ''='' @ D @ ''='' @ (L1 @ ''@'' @ R))
           = Some (Inr (L1 @ ''@'' @ D))"
proof -
  let ?L = "L1 @ ''@'' @ R"
  have p: "CHR ''='' \<notin> set p" using assms(1) by auto
  have parts: "SplitN (p @ CHR ''='' # H @ CHR ''='' # T @ CHR ''='' # D @ CHR ''='' # L1 @ CHR ''@'' # R)
      CHR ''='' 5 = [p, H, T, D, L1 @ CHR ''@'' # R]"
    by (rule SplitN_fields [OF p assms(2,3,4)])
  have "takeWhile (\<lambda>x. x \<noteq> CHR ''@'') ?L = L1"
    using assms(5) by (induction L1) auto
  then show ?thesis
    using decodeSRS_fields [of "p @ ''='' @ H @ ''='' @ T @ ''='' @ D @ ''='' @ ?L"]
    by (simp add: parts)
qed

theorem decodeSRS_embedded_address_witness:
  "decodeSRS ''SRS0=abc123=12345=example.com=user@forwarder.com'' = Some (Inr ''user@example.com'')"
  using decodeSRS_embedded_address
    [of "''SRS0''" "''abc123''" "''12345''" "''example.com''" "''user''" "''forwarder.com''"]
  by simp

text \<open>
  C4. \<open>decodeSRS\<close> returns an error exactly when splitting the input at its first four
  \<open>=\<close> yields fewer than 5 fields, that is, exactly when the input contains fewer than
  four \<open>=\<close>; with four or more it returns an address. This holds for every string,
  so in particular for those that start with \<open>SRS0=\<close> or \<open>SRS1=\<close>.
\<close>

theorem decodeSRS_error_iff:
  "((\<exists>msg. decodeSRS s = Some (Inl msg)) \<longleftrightarrow> length (SplitN s CHR ''='' 5) < 5)
   \<and> ((\<exists>msg. decodeSRS s = Some (Inl msg)) \<longleftrightarrow> Count s CHR ''='' < 4)
   \<and> ((\<exists>a. decodeSRS s = Some (Inr a)) \<longleftrightarrow> 4 \<le> Count s CHR ''='')"
proof (cases "length (SplitN s CHR ''='' 5) = 5")
  case True
  then have "4 \<le> Count s CHR ''=''" by (simp add: length_SplitN_5 min_def split: if_splits)
  then show ?thesis using True decodeSRS_fields [OF True] by simp
next
  case False
  then have "Count s CHR ''='' < 4" "length (SplitN s CHR ''='' 5) < 5"
    by (simp_all add: length_SplitN_5 min_def split: if_splits)
  then show ?thesis using decodeSRS_short [OF False] by simp
qed

section \<open>The clean-email check\<close>

lemma Count_append_sep:
  "c \<notin> set l \<Longrightarrow> c \<notin> set d \<Longrightarrow> Count (l @ c # d) c = 1"
  by (auto simp: Count_def filter_empty_conv)

lemma Count_zero_iff: "Count s c = 0 \<longleftrightarrow> c \<notin> set s"
  by (auto simp: Count_def filter_empty_conv)

lemma Split_two:
  assumes "Count s c = 1"
  obtains l d where "s = l @ c # d" "c \<notin> set l" "c \<notin> set d" "Split s c = [l, d]"
proof -
  have "c \<in> set s" using assms Count_zero_iff [of s c] by auto
  then obtain m where m: "Index s c = Some m"
    using Index_None_iff [of s c] by (cases "Index s c") auto
  then have idx: "m < length s" "s ! m = c" "c \<notin> set (take m s)"
    by (simp_all add: Index_Some_iff)
  have rest: "Count (drop (Suc m) s) c = 0"
    using Count_Index_Some [OF m] assms by simp
  have "s = take m s @ c # drop (Suc m) s"
    using idx(1,2) id_take_nth_drop [of m s] by simp
  moreover have "c \<notin> set (drop (Suc m) s)"
    using rest by (simp add: Count_zero_iff)
  moreover have "Split s c = [take m s, drop (Suc m) s]"
    using m assms by (simp add: Split_loop)
  ultimately show ?thesis using that idx(3) by blast
qed

lemma ContainsAny_notAllowedChars:
  "ContainsAny s notAllowedChars \<longleftrightarrow>
     (\<exists>x\<in>set s. x \<in> {CHR '' '', CHR ''<'', CHR ''>'', CHR ''('', CHR '')'', CHR '','',
                       CHR '';'', CHR ''='', CHR 0x22})"
  by (auto simp: ContainsAny_def notAllowedChars_def list_ex_iff)

lemma append_sep_unique:
  fixes l :: string
  assumes "l @ c # d = l' @ c # d'" "c \<notin> set l" "c \<notin> set l'"
  shows "l = l' \<and> d = d'"
proof -
  have "Index (l @ c # d) c = Some (length l)" "Index (l' @ c # d') c = Some (length l')"
    using assms(2,3) by (simp_all add: Index_append_sep)
  then have "length l = length l'" using assms(1) by simp
  then show ?thesis using assms(1) by simp
qed

lemma isCleanEmail_rules:
  "isCleanEmail s =
     Some ((\<forall>x\<in>set s. x \<notin> {CHR '' '', CHR ''<'', CHR ''>'', CHR ''('', CHR '')'', CHR '','',
                              CHR '';'', CHR ''='', CHR 0x22})
           \<and> (\<exists>l d. s = l @ ''@'' @ d \<and> CHR ''@'' \<notin> set l \<and> CHR ''@'' \<notin> set d
                    \<and> l \<noteq> [] \<and> 3 \<le> length d \<and> CHR ''.'' \<in> set d))"
  (is "_ = Some (?allowed \<and> ?shape)")
proof (cases "ContainsAny s notAllowedChars")
  case True
  then have "\<not> ?allowed" by (simp only: ContainsAny_notAllowedChars) blast
  then show ?thesis using True by (simp add: isCleanEmail_def)
next
  case False
  then have allowed: ?allowed by (simp only: ContainsAny_notAllowedChars) blast
  show ?thesis
  proof (cases "Count s CHR ''@'' = 1")
    case one: True
    obtain l d where ld: "s = l @ CHR ''@'' # d" "CHR ''@'' \<notin> set l" "CHR ''@'' \<notin> set d"
      "Split s CHR ''@'' = [l, d]"
      using Split_two [OF one] by blast
    have "?shape \<longleftrightarrow> l \<noteq> [] \<and> 3 \<le> length d \<and> CHR ''.'' \<in> set d"
    proof
      assume ?shape
      then obtain l' d' where *: "s = l' @ CHR ''@'' # d'" "CHR ''@'' \<notin> set l'"
        "l' \<noteq> []" "3 \<le> length d'" "CHR ''.'' \<in> set d'"
        by auto
      have "l = l' \<and> d = d'"
        using append_sep_unique [of l "CHR ''@''" d l' d'] ld(1,2) *(1,2) by simp
      then show "l \<noteq> [] \<and> 3 \<le> length d \<and> CHR ''.'' \<in> set d" using * by simp
    next
      assume "l \<noteq> [] \<and> 3 \<le> length d \<and> CHR ''.'' \<in> set d"
      then show ?shape using ld(1,2,3) by auto
    qed
    moreover have "isCleanEmail s = Some (l \<noteq> [] \<and> 3 \<le> length d \<and> CHR ''.'' \<in> set d)"
      using False one ld(4)
      by (auto simp: isCleanEmail_def at_def Contains_def Index_None_iff)
    ultimately show ?thesis using allowed by simp
  next
    case other: False
    have "\<not> ?shape"
    proof
      assume ?shape
      then obtain l d where "s = l @ CHR ''@'' # d" "CHR ''@'' \<notin> set l" "CHR ''@'' \<notin> set d"
        by auto
      then have "Count s CHR ''@'' = 1" by (simp add: Count_append_sep)
      then show False using other by simp
    qed
    then show ?thesis using False other by (simp add: isCleanEmail_def)
  qed
qed

text \<open>
  C6. For every string \<open>s\<close> that starts with neither \<open>SRS0=\<close> nor \<open>SRS1=\<close>, the check
  answers true (the address is a clean email) exactly when \<open>s\<close> contains none of
  space, \<open><\<close>, \<open>>\<close>, \<open>(\<close>, \<open>)\<close>, comma, semicolon, \<open>=\<close>, double quote, contains exactly
  one \<open>@\<close>, the part before it is not empty, and the part after it has at least 3
  bytes and contains a dot; otherwise it answers false (the address is unrecognized).
  It never panics.
\<close>

theorem isCleanEmail_iff:
  assumes "\<not> HasPrefix s ''SRS0=''" and "\<not> HasPrefix s ''SRS1=''"
  shows "isCleanEmail s =
     Some ((\<forall>x\<in>set s. x \<notin> {CHR '' '', CHR ''<'', CHR ''>'', CHR ''('', CHR '')'', CHR '','',
                              CHR '';'', CHR ''='', CHR 0x22})
           \<and> (\<exists>l d. s = l @ ''@'' @ d \<and> CHR ''@'' \<notin> set l \<and> CHR ''@'' \<notin> set d
                    \<and> l \<noteq> [] \<and> 3 \<le> length d \<and> CHR ''.'' \<in> set d))"
  by (rule isCleanEmail_rules)

theorem isCleanEmail_iff_witness:
  "isCleanEmail ''user@example.com'' = Some True \<and> isCleanEmail ''a@b.'' = Some False"
proof -
  have "''user@example.com'' = ''user'' @ ''@'' @ ''example.com''" by simp
  then have "\<exists>l d. ''user@example.com'' = l @ ''@'' @ d \<and> CHR ''@'' \<notin> set l \<and> CHR ''@'' \<notin> set d
      \<and> l \<noteq> [] \<and> 3 \<le> length d \<and> CHR ''.'' \<in> set d"
    by (intro exI [of _ "''user''"] exI [of _ "''example.com''"]) simp
  then have "isCleanEmail ''user@example.com'' = Some True"
    using isCleanEmail_iff [of "''user@example.com''"] by (simp add: HasPrefix_def)
  moreover have "\<not> (\<exists>l d. ''a@b.'' = l @ ''@'' @ d \<and> CHR ''@'' \<notin> set l \<and> CHR ''@'' \<notin> set d
      \<and> l \<noteq> [] \<and> 3 \<le> length d \<and> CHR ''.'' \<in> set d)"
  proof
    assume "\<exists>l d. ''a@b.'' = l @ ''@'' @ d \<and> CHR ''@'' \<notin> set l \<and> CHR ''@'' \<notin> set d
      \<and> l \<noteq> [] \<and> 3 \<le> length d \<and> CHR ''.'' \<in> set d"
    then obtain l d where *: "''a'' @ CHR ''@'' # ''b.'' = l @ CHR ''@'' # d" "CHR ''@'' \<notin> set l"
      "3 \<le> length d"
      by auto
    have "''a'' = l \<and> ''b.'' = d"
      using append_sep_unique [OF *(1)] *(2) by simp
    then show False using *(3) by auto
  qed
  then have "isCleanEmail ''a@b.'' = Some False"
    using isCleanEmail_iff [of "''a@b.''"] by (simp add: HasPrefix_def)
  ultimately show ?thesis by simp
qed

section \<open>What trimming leaves\<close>






text \<open>On a string of ASCII bytes, \<open>TrimSpace\<close> removes a run of white-space bytes at
  each end, and what stays neither starts nor ends with one.\<close>

lemma trim_start_ascii:
  assumes "\<forall>c\<in>set s. byte c < RuneSelf"
  shows "\<exists>pre t. trim_start s = Inr t \<and> s = pre @ t \<and> (\<forall>c\<in>set pre. asciiSpace c)
           \<and> (t \<noteq> [] \<longrightarrow> \<not> asciiSpace (hd t))"
  using assms
proof (induction s)
  case Nil
  then show ?case by simp
next
  case (Cons c cs)
  show ?case
  proof (cases "asciiSpace c")
    case True
    obtain pre t where "trim_start cs = Inr t" "cs = pre @ t" "\<forall>c\<in>set pre. asciiSpace c"
      "t \<noteq> [] \<longrightarrow> \<not> asciiSpace (hd t)"
      using Cons by auto
    then show ?thesis
      using True Cons.prems by (intro exI [of _ "c # pre"] exI [of _ t]) simp
  next
    case False
    then show ?thesis
      using Cons.prems by (intro exI [of _ "[]"] exI [of _ "c # cs"]) simp
  qed
qed

lemma trim_stop_ascii:
  assumes "\<forall>c\<in>set t. byte c < RuneSelf" and "k \<le> length t"
  shows "\<exists>m\<le>k. trim_stop t k = take m t \<and> (\<forall>c\<in>set (drop m (take k t)). asciiSpace c)
           \<and> (0 < m \<longrightarrow> \<not> asciiSpace (t ! (m - 1)))"
  using assms(2)
proof (induction k)
  case 0
  then show ?case by simp
next
  case (Suc k)
  have k: "k < length t" using Suc.prems by simp
  then have asc: "\<not> RuneSelf \<le> byte (t ! k)" using assms(1) by (auto simp: not_le)
  show ?case
  proof (cases "asciiSpace (t ! k)")
    case True
    obtain m where m: "m \<le> k" "trim_stop t k = take m t"
      "\<forall>c\<in>set (drop m (take k t)). asciiSpace c" "0 < m \<longrightarrow> \<not> asciiSpace (t ! (m - 1))"
      using Suc.IH k by auto
    have "drop m (take (Suc k) t) = drop m (take k t) @ [t ! k]"
      using k m(1) by (simp add: take_Suc_conv_app_nth)
    then show ?thesis
      using True asc m by (intro exI [of _ m]) (simp add: Let_def)
  next
    case False
    then show ?thesis
      using asc by (intro exI [of _ "Suc k"]) (simp add: Let_def)
  qed
qed

lemma TrimSpace_ascii:
  assumes "\<forall>c\<in>set s. byte c < RuneSelf"
  shows "\<exists>pre suf. s = pre @ TrimSpace s @ suf
           \<and> (\<forall>c\<in>set pre. asciiSpace c) \<and> (\<forall>c\<in>set suf. asciiSpace c)
           \<and> (TrimSpace s \<noteq> [] \<longrightarrow>
                \<not> asciiSpace (hd (TrimSpace s)) \<and> \<not> asciiSpace (last (TrimSpace s)))"
proof -
  obtain pre t where t: "trim_start s = Inr t" "s = pre @ t" "\<forall>c\<in>set pre. asciiSpace c"
    "t \<noteq> [] \<longrightarrow> \<not> asciiSpace (hd t)"
    using trim_start_ascii [OF assms] by blast
  have "\<forall>c\<in>set t. byte c < RuneSelf" using assms t(2) by simp
  then obtain m where m: "m \<le> length t" "trim_stop t (length t) = take m t"
    "\<forall>c\<in>set (drop m (take (length t) t)). asciiSpace c"
    "0 < m \<longrightarrow> \<not> asciiSpace (t ! (m - 1))"
    using trim_stop_ascii [of t "length t"] by auto
  have res: "TrimSpace s = take m t" using t(1) m(2) by (simp add: TrimSpace_def)
  have split: "s = pre @ TrimSpace s @ drop m t" using t(2) res by simp
  have suf: "\<forall>c\<in>set (drop m t). asciiSpace c" using m(3) by simp
  have ends: "\<not> asciiSpace (hd (TrimSpace s)) \<and> \<not> asciiSpace (last (TrimSpace s))"
    if ne: "TrimSpace s \<noteq> []"
  proof -
    have pos: "0 < m" "t \<noteq> []" using ne res by auto
    then have "hd (take m t) = hd t" by (cases m) auto
    moreover have "last (take m t) = t ! (m - 1)"
      using pos m(1) ne res by (simp add: last_conv_nth)
    ultimately show ?thesis using pos t(4) m(4) res by simp
  qed
  show ?thesis
    using split t(3) suf ends by blast
qed










section \<open>The handler\<close>

lemma wire_log [simp]:
  "wire (logError msg @ tr) = wire tr"
  "wire (logInfo lvl msg @ tr) = wire tr"
  "wire (logDebug lvl msg @ tr) = wire tr"
  by (simp_all add: wire_def logError_def logInfo_def logDebug_def)

lemma wire_conn [simp]:
  "wire (Write a # tr) = Write a # wire tr"
  "wire (Close # tr) = Close # wire tr"
  "wire (Crash # tr) = Crash # wire tr"
  "wire [] = []"
  by (simp_all add: wire_def)

lemma wire_append: "wire (xs @ ys) = wire xs @ wire ys"
  by (simp add: wire_def)

lemma isCleanEmail_total: "isCleanEmail s = Some True \<or> isCleanEmail s = Some False"
  using isCleanEmail_rules [of s] by auto

lemma decodeSRS_total:
  "(\<exists>msg. decodeSRS s = Some (Inl msg)) \<or> (\<exists>a. decodeSRS s = Some (Inr a))"
  using decodeSRS_fields [of s] decodeSRS_short [of s] by blast

lemma slice_from_get: "HasPrefix line ''get '' \<Longrightarrow> slice_from line 4 = Some (drop 4 line)"
  by (simp add: HasPrefix_def slice_from_def)


lemma handle_invalid_command:
  "ReadString incoming CHR 0x0A = (line, None) \<Longrightarrow> \<not> HasPrefix (TrimSpace line) ''get '' \<Longrightarrow>
     handle lvl cfg incoming = [Write ''500 invalid request\<newline>'', Close]"
  by (simp add: handle_def)

lemma handle_get:
  "ReadString incoming CHR 0x0A = (line, None) \<Longrightarrow> HasPrefix (TrimSpace line) ''get '' \<Longrightarrow>
     handle lvl cfg incoming =
       (case handle_address lvl cfg (TrimSpace (drop 4 (TrimSpace line))) of
          None \<Rightarrow> [Close, Crash]
        | Some evs \<Rightarrow> evs @ [Close])"
  by (simp add: handle_def slice_from_get)

lemma handle_address_clean:
  assumes "\<not> HasPrefix a ''SRS0=''" "\<not> HasPrefix a ''SRS1=''" "isCleanEmail a = Some True"
  shows "handle_address lvl cfg a =
           Some (logDebug lvl (''Address: '' @ a @ '', no decoding required'')
                 @ [Write (''200 '' @ a @ ''\<newline>'')])"
  using assms by (simp add: handle_address_def)

lemma handle_address_unrecognized:
  assumes "\<not> HasPrefix a ''SRS0=''" "\<not> HasPrefix a ''SRS1=''" "isCleanEmail a = Some False"
  shows "\<exists>evs. handle_address lvl cfg a = Some evs \<and> wire evs =
           [Write (if FallbackAddress cfg \<noteq> [] then ''200 '' @ FallbackAddress cfg @ ''\<newline>''
                   else ''500 invalid request\<newline>'')]"
  using assms by (simp add: handle_address_def)

lemma handle_address_undecodable:
  assumes "HasPrefix a ''SRS0='' \<or> HasPrefix a ''SRS1=''" "decodeSRS a = Some (Inl msg)"
  shows "\<exists>evs. handle_address lvl cfg a = Some evs \<and> wire evs =
           [Write (if FallbackAddress cfg \<noteq> [] then ''200 '' @ FallbackAddress cfg @ ''\<newline>''
                   else ''500 invalid request\<newline>'')]"
  using assms by (auto simp: handle_address_def)

lemma handle_address_decoded:
  assumes "HasPrefix a ''SRS0='' \<or> HasPrefix a ''SRS1=''" "decodeSRS a = Some (Inr d)"
  shows "\<exists>evs. handle_address lvl cfg a = Some evs \<and> wire evs = [Write (''200 '' @ d @ ''\<newline>'')]"
  using assms by (auto simp: handle_address_def)

lemma handle_address_one_line:
  "\<exists>evs resp. handle_address lvl cfg a = Some evs \<and> wire evs = [Write (resp @ ''\<newline>'')]"
proof (cases "HasPrefix a ''SRS0='' \<or> HasPrefix a ''SRS1=''")
  case True
  from decodeSRS_total [of a] show ?thesis
  proof
    assume "\<exists>msg. decodeSRS a = Some (Inl msg)"
    then obtain msg where "decodeSRS a = Some (Inl msg)" ..
    from handle_address_undecodable [OF True this, of lvl cfg]
    obtain evs where "handle_address lvl cfg a = Some evs"
      "wire evs = [Write (if FallbackAddress cfg \<noteq> [] then ''200 '' @ FallbackAddress cfg @ ''\<newline>''
                   else ''500 invalid request\<newline>'')]"
      by blast
    then show ?thesis
      by (cases "FallbackAddress cfg \<noteq> []")
        (auto intro: exI [of _ "''200 '' @ FallbackAddress cfg"] exI [of _ "''500 invalid request''"])
  next
    assume "\<exists>d. decodeSRS a = Some (Inr d)"
    then obtain d where "decodeSRS a = Some (Inr d)" ..
    from handle_address_decoded [OF True this, of lvl cfg]
    show ?thesis by (auto intro: exI [of _ "''200 '' @ d"])
  qed
next
  case False
  then have np: "\<not> HasPrefix a ''SRS0=''" "\<not> HasPrefix a ''SRS1=''" by auto
  from isCleanEmail_total [of a] show ?thesis
  proof
    assume "isCleanEmail a = Some True"
    from handle_address_clean [OF np this, of lvl cfg]
    show ?thesis by (auto intro: exI [of _ "''200 '' @ a"])
  next
    assume "isCleanEmail a = Some False"
    from handle_address_unrecognized [OF np this, of lvl cfg]
    obtain evs where "handle_address lvl cfg a = Some evs"
      "wire evs = [Write (if FallbackAddress cfg \<noteq> [] then ''200 '' @ FallbackAddress cfg @ ''\<newline>''
                   else ''500 invalid request\<newline>'')]"
      by blast
    then show ?thesis
      by (cases "FallbackAddress cfg \<noteq> []")
        (auto intro: exI [of _ "''200 '' @ FallbackAddress cfg"] exI [of _ "''500 invalid request''"])
  qed
qed

lemmas trim_eval =
  TrimSpace_def asciiSpace_def byte_def RuneSelf_def Let_def

lemma ReadString_line:
  "CHR 0x0A \<notin> set l \<Longrightarrow> ReadString (l @ CHR 0x0A # rest) CHR 0x0A = (l @ [CHR 0x0A], None)"
  by (simp add: ReadString_def Index_append_sep)

lemma ReadString_no_line:
  "CHR 0x0A \<notin> set l \<Longrightarrow> ReadString l CHR 0x0A = (l, Some ''EOF'')"
  using Index_None_iff [of l "CHR 0x0A"] by (simp add: ReadString_def)

text \<open>
  C5. For every request whose address is unrecognized (it has no SRS prefix and is not
  a clean email) or whose SRS decoding fails: when the configured fallback address is
  not empty the handler answers \<open>200 <fallback>\<close>, when it is empty it answers
  \<open>500 invalid request\<close>, and in both cases this is all it writes before it closes
  the connection.
\<close>

theorem fallback_policy:
  assumes "ReadString incoming CHR 0x0A = (line, None)"
    and "HasPrefix (TrimSpace line) ''get ''"
    and "address = TrimSpace (drop 4 (TrimSpace line))"
    and "(\<not> HasPrefix address ''SRS0='' \<and> \<not> HasPrefix address ''SRS1=''
            \<and> isCleanEmail address = Some False)
         \<or> ((HasPrefix address ''SRS0='' \<or> HasPrefix address ''SRS1='')
            \<and> (\<exists>msg. decodeSRS address = Some (Inl msg)))"
  shows "wire (handle lvl cfg incoming) =
           [Write (if FallbackAddress cfg \<noteq> [] then ''200 '' @ FallbackAddress cfg @ ''\<newline>''
                   else ''500 invalid request\<newline>''),
            Close]"
proof -
  have "\<exists>evs. handle_address lvl cfg address = Some evs \<and> wire evs =
           [Write (if FallbackAddress cfg \<noteq> [] then ''200 '' @ FallbackAddress cfg @ ''\<newline>''
                   else ''500 invalid request\<newline>'')]"
    using assms(4) handle_address_unrecognized [of address lvl cfg]
      handle_address_undecodable [of address _ lvl cfg]
    by blast
  then obtain evs where "handle_address lvl cfg address = Some evs"
    and "wire evs = [Write (if FallbackAddress cfg \<noteq> [] then ''200 '' @ FallbackAddress cfg @ ''\<newline>''
                   else ''500 invalid request\<newline>'')]"
    by blast
  then show ?thesis
    using handle_get [OF assms(1,2), of lvl cfg] assms(3) by (simp add: wire_append)
qed

theorem fallback_policy_witness:
  "(\<forall>lvl cfg. wire (handle lvl (cfg\<lparr>FallbackAddress := ''root@example.com''\<rparr>)
                ''get SRS0=incomplete\<newline>'')
              = [Write ''200 root@example.com\<newline>'', Close])
   \<and> (\<forall>lvl cfg. wire (handle lvl (cfg\<lparr>FallbackAddress := []\<rparr>) ''get email@\<newline>'')
              = [Write ''500 invalid request\<newline>'', Close])"
proof -
  have r1: "ReadString ''get SRS0=incomplete\<newline>'' CHR 0x0A = (''get SRS0=incomplete\<newline>'', None)"
    using ReadString_line [of "''get SRS0=incomplete''" "[]"] by simp
  have t1: "TrimSpace ''get SRS0=incomplete\<newline>'' = ''get SRS0=incomplete''"
    by (simp add: trim_eval)
  have a1: "TrimSpace ''SRS0=incomplete'' = ''SRS0=incomplete''"
    by (simp add: trim_eval)
  have d1: "decodeSRS ''SRS0=incomplete'' = Some (Inl ''SRS format - wrong number of parts'')"
    by (simp add: decodeSRS_short length_SplitN_5 Count_def)
  have h2: "HasPrefix (TrimSpace ''get SRS0=incomplete\<newline>'') ''get ''"
    by (simp add: t1 HasPrefix_def)
  have h3: "''SRS0=incomplete'' = TrimSpace (drop 4 (TrimSpace ''get SRS0=incomplete\<newline>''))"
    by (simp add: t1 a1)
  have h4: "(\<not> HasPrefix ''SRS0=incomplete'' ''SRS0='' \<and> \<not> HasPrefix ''SRS0=incomplete'' ''SRS1=''
            \<and> isCleanEmail ''SRS0=incomplete'' = Some False)
         \<or> ((HasPrefix ''SRS0=incomplete'' ''SRS0='' \<or> HasPrefix ''SRS0=incomplete'' ''SRS1='')
            \<and> (\<exists>msg. decodeSRS ''SRS0=incomplete'' = Some (Inl msg)))"
    by (simp add: d1 HasPrefix_def)
  have r2: "ReadString ''get email@\<newline>'' CHR 0x0A = (''get email@\<newline>'', None)"
    using ReadString_line [of "''get email@''" "[]"] by simp
  have t2: "TrimSpace ''get email@\<newline>'' = ''get email@''"
    by (simp add: trim_eval)
  have a2: "TrimSpace ''email@'' = ''email@''"
    by (simp add: trim_eval)
  have c2: "isCleanEmail ''email@'' = Some False"
    by (simp add: isCleanEmail_def ContainsAny_def notAllowedChars_def Count_def Split_loop
        at_def)
  have g2: "HasPrefix (TrimSpace ''get email@\<newline>'') ''get ''"
    by (simp add: t2 HasPrefix_def)
  have g3: "''email@'' = TrimSpace (drop 4 (TrimSpace ''get email@\<newline>''))"
    by (simp add: t2 a2)
  have g4: "(\<not> HasPrefix ''email@'' ''SRS0='' \<and> \<not> HasPrefix ''email@'' ''SRS1=''
            \<and> isCleanEmail ''email@'' = Some False)
         \<or> ((HasPrefix ''email@'' ''SRS0='' \<or> HasPrefix ''email@'' ''SRS1='')
            \<and> (\<exists>msg. decodeSRS ''email@'' = Some (Inl msg)))"
    by (simp add: c2 HasPrefix_def)
  have "wire (handle lvl (cfg\<lparr>FallbackAddress := ''root@example.com''\<rparr>)
                ''get SRS0=incomplete\<newline>'')
              = [Write ''200 root@example.com\<newline>'', Close]" for lvl cfg
    using fallback_policy [OF r1 h2 h3 h4, of lvl "cfg\<lparr>FallbackAddress := ''root@example.com''\<rparr>"]
    by simp
  moreover have "wire (handle lvl (cfg\<lparr>FallbackAddress := []\<rparr>) ''get email@\<newline>'')
              = [Write ''500 invalid request\<newline>'', Close]" for lvl cfg
    using fallback_policy [OF r2 g2 g3 g4, of lvl "cfg\<lparr>FallbackAddress := []\<rparr>"]
    by simp
  ultimately show ?thesis by blast
qed

text \<open>
  C7. For every address that starts with neither \<open>SRS0=\<close> nor \<open>SRS1=\<close> and passes the
  clean-email check, the handler answers \<open>200 <address>\<close> with the address as it
  was extracted from the request, nothing decoded or rewritten.
\<close>

theorem clean_email_pass_through:
  assumes "ReadString incoming CHR 0x0A = (line, None)"
    and "HasPrefix (TrimSpace line) ''get ''"
    and "address = TrimSpace (drop 4 (TrimSpace line))"
    and "\<not> HasPrefix address ''SRS0=''" and "\<not> HasPrefix address ''SRS1=''"
    and "isCleanEmail address = Some True"
  shows "wire (handle lvl cfg incoming) = [Write (''200 '' @ address @ ''\<newline>''), Close]"
  using handle_get [OF assms(1,2), of lvl cfg] handle_address_clean [OF assms(4,5,6), of lvl cfg]
    assms(3)
  by simp

theorem clean_email_pass_through_witness:
  "\<forall>lvl cfg. wire (handle lvl cfg ''get user@example.com\<newline>'')
     = [Write ''200 user@example.com\<newline>'', Close]"
proof -
  have r: "ReadString ''get user@example.com\<newline>'' CHR 0x0A = (''get user@example.com\<newline>'', None)"
    using ReadString_line [of "''get user@example.com''" "[]"] by simp
  have t: "TrimSpace ''get user@example.com\<newline>'' = ''get user@example.com''"
    by (simp add: trim_eval)
  have a: "TrimSpace ''user@example.com'' = ''user@example.com''"
    by (simp add: trim_eval)
  have h2: "HasPrefix (TrimSpace ''get user@example.com\<newline>'') ''get ''"
    by (simp add: t HasPrefix_def)
  have h3: "''user@example.com'' = TrimSpace (drop 4 (TrimSpace ''get user@example.com\<newline>''))"
    by (simp add: t a)
  have h4: "\<not> HasPrefix ''user@example.com'' ''SRS0=''" and h5: "\<not> HasPrefix ''user@example.com'' ''SRS1=''"
    by (simp_all add: HasPrefix_def)
  have h6: "isCleanEmail ''user@example.com'' = Some True"
    by (simp add: isCleanEmail_def ContainsAny_def notAllowedChars_def Count_def Split_loop
        at_def Contains_def)
  show ?thesis
    using clean_email_pass_through [OF r h2 h3 h4 h5 h6] by simp
qed

text \<open>
  C8. For every request line that was read, the handler first trims the white space
  around it. If the trimmed line does not start with the four bytes \<open>get\<close> and one
  space, compared byte by byte, the handler writes \<open>500 invalid request\<close> and closes
  the connection. Otherwise the candidate address is what follows those four bytes,
  trimmed again, and the handler does with it what the address stage does, then closes.
\<close>

theorem command_token:
  assumes "ReadString incoming CHR 0x0A = (line, None)"
  shows "(\<not> HasPrefix (TrimSpace line) ''get '' \<longrightarrow>
            handle lvl cfg incoming = [Write ''500 invalid request\<newline>'', Close])
       \<and> (HasPrefix (TrimSpace line) ''get '' \<longrightarrow>
            (\<exists>evs. handle_address lvl cfg (TrimSpace (drop 4 (TrimSpace line))) = Some evs
                 \<and> handle lvl cfg incoming = evs @ [Close]))"
proof (intro conjI impI)
  assume "\<not> HasPrefix (TrimSpace line) ''get ''"
  then show "handle lvl cfg incoming = [Write ''500 invalid request\<newline>'', Close]"
    using assms by (rule handle_invalid_command [rotated])
next
  assume get: "HasPrefix (TrimSpace line) ''get ''"
  obtain evs where "handle_address lvl cfg (TrimSpace (drop 4 (TrimSpace line))) = Some evs"
    using handle_address_one_line [of lvl cfg "TrimSpace (drop 4 (TrimSpace line))"] by blast
  then show "\<exists>evs. handle_address lvl cfg (TrimSpace (drop 4 (TrimSpace line))) = Some evs
                 \<and> handle lvl cfg incoming = evs @ [Close]"
    using handle_get [OF assms get, of lvl cfg] by simp
qed

theorem command_token_witness:
  "(\<forall>lvl cfg. handle lvl cfg ''put something\<newline>'' = [Write ''500 invalid request\<newline>'', Close])
   \<and> (\<forall>lvl cfg. handle lvl cfg ''GET user@example.com\<newline>''
         = [Write ''500 invalid request\<newline>'', Close])
   \<and> (\<forall>lvl cfg. \<exists>evs. handle_address lvl cfg ''user@example.com'' = Some evs
         \<and> handle lvl cfg (''  get   user@example.com '' @ [CHR 0x0D, CHR 0x0A]) = evs @ [Close])"
proof -
  have r1: "ReadString ''put something\<newline>'' CHR 0x0A = (''put something\<newline>'', None)"
    using ReadString_line [of "''put something''" "[]"] by simp
  have t1: "TrimSpace ''put something\<newline>'' = ''put something''"
    by (simp add: trim_eval)
  have n1: "\<not> HasPrefix (TrimSpace ''put something\<newline>'') ''get ''"
    by (simp add: t1 HasPrefix_def)
  have r2: "ReadString ''GET user@example.com\<newline>'' CHR 0x0A = (''GET user@example.com\<newline>'', None)"
    using ReadString_line [of "''GET user@example.com''" "[]"] by simp
  have t2: "TrimSpace ''GET user@example.com\<newline>'' = ''GET user@example.com''"
    by (simp add: trim_eval)
  have n2: "\<not> HasPrefix (TrimSpace ''GET user@example.com\<newline>'') ''get ''"
    by (simp add: t2 HasPrefix_def)
  have r3: "ReadString (''  get   user@example.com '' @ [CHR 0x0D, CHR 0x0A]) CHR 0x0A
      = (''  get   user@example.com '' @ [CHR 0x0D, CHR 0x0A], None)"
    using ReadString_line [of "''  get   user@example.com '' @ [CHR 0x0D]" "[]"] by simp
  have t3: "TrimSpace (''  get   user@example.com '' @ [CHR 0x0D, CHR 0x0A]) = ''get   user@example.com''"
    by (simp add: trim_eval)
  have a3: "TrimSpace ''  user@example.com'' = ''user@example.com''"
    by (simp add: trim_eval)
  have g3: "HasPrefix (TrimSpace (''  get   user@example.com '' @ [CHR 0x0D, CHR 0x0A])) ''get ''"
    using t3 by (simp add: HasPrefix_def)
  have "handle lvl cfg ''put something\<newline>'' = [Write ''500 invalid request\<newline>'', Close]" for lvl cfg
    using command_token [OF r1, of lvl cfg] n1 by simp
  moreover have "handle lvl cfg ''GET user@example.com\<newline>''
      = [Write ''500 invalid request\<newline>'', Close]" for lvl cfg
    using command_token [OF r2, of lvl cfg] n2 by simp
  moreover have "\<exists>evs. handle_address lvl cfg ''user@example.com'' = Some evs
         \<and> handle lvl cfg (''  get   user@example.com '' @ [CHR 0x0D, CHR 0x0A]) = evs @ [Close]"
    for lvl cfg
    using command_token [OF r3, of lvl cfg] g3 t3 by (simp add: a3)
  ultimately show ?thesis by blast
qed










text \<open>
  C10. A decoded address is returned as it is, never checked against the clean-email
  rules: whenever the decoding of an SRS-prefixed address succeeds, the answer is
  \<open>200\<close> with the decoded string. So for \<open>SRS0====\<close>, which has four \<open>=\<close> and empty
  fourth and fifth fields, the handler answers \<open>200 @\<close>, a string with an empty local
  part and an empty domain that the clean-email check itself rejects.
\<close>

theorem decoded_address_not_validated:
  "(\<forall>a d. (HasPrefix a ''SRS0='' \<or> HasPrefix a ''SRS1='') \<longrightarrow> decodeSRS a = Some (Inr d) \<longrightarrow>
       (\<exists>evs. handle_address lvl cfg a = Some evs \<and> wire evs = [Write (''200 '' @ d @ ''\<newline>'')]))
   \<and> HasPrefix ''SRS0===='' ''SRS0='' \<and> Count ''SRS0===='' CHR ''='' = 4
   \<and> decodeSRS ''SRS0===='' = Some (Inr ''@'')
   \<and> isCleanEmail ''@'' = Some False
   \<and> wire (handle lvl cfg ''get SRS0====\<newline>'') = [Write ''200 @\<newline>'', Close]"
proof -
  have r: "ReadString ''get SRS0====\<newline>'' CHR 0x0A = (''get SRS0====\<newline>'', None)"
    using ReadString_line [of "''get SRS0====''" "[]"] by simp
  have t: "TrimSpace ''get SRS0====\<newline>'' = ''get SRS0====''"
    by (simp add: trim_eval)
  have a: "TrimSpace ''SRS0===='' = ''SRS0====''"
    by (simp add: trim_eval)
  have p: "HasPrefix ''SRS0===='' ''SRS0=''"
    by (simp add: HasPrefix_def)
  have c: "Count ''SRS0===='' CHR ''='' = 4"
    by (simp add: Count_def)
  have "SplitN (''SRS0'' @ CHR ''='' # [] @ CHR ''='' # [] @ CHR ''='' # [] @ CHR ''='' # []) CHR ''='' 5
      = [''SRS0'', [], [], [], []]"
    by (rule SplitN_fields) simp_all
  then have parts: "SplitN ''SRS0===='' CHR ''='' 5 = [''SRS0'', [], [], [], []]"
    by simp
  have d: "decodeSRS ''SRS0===='' = Some (Inr ''@'')"
    using decodeSRS_fields [of "''SRS0====''"] by (simp add: parts)
  have e: "isCleanEmail ''@'' = Some False"
    by (simp add: isCleanEmail_def ContainsAny_def notAllowedChars_def Count_def Split_loop
        at_def)
  have g: "HasPrefix (TrimSpace ''get SRS0====\<newline>'') ''get ''"
    by (simp add: t HasPrefix_def)
  obtain evs where "handle_address lvl cfg ''SRS0===='' = Some evs"
    and "wire evs = [Write (''200 '' @ ''@'' @ ''\<newline>'')]"
    using handle_address_decoded [OF disjI1 [OF p] d, of lvl cfg] by blast
  then have "wire (handle lvl cfg ''get SRS0====\<newline>'') = [Write ''200 @\<newline>'', Close]"
    using handle_get [OF r g, of lvl cfg] by (simp add: t a wire_append)
  then show ?thesis
    using p c d e handle_address_decoded [of _ _ lvl cfg] by blast
qed

theorem decoded_address_not_validated_witness:
  "\<forall>lvl cfg. \<exists>evs. handle_address lvl cfg ''SRS0===='' = Some evs \<and> wire evs = [Write ''200 @\<newline>'']"
proof (intro allI)
  fix lvl cfg
  from decoded_address_not_validated [of lvl cfg]
  have gen: "\<And>a d. HasPrefix a ''SRS0='' \<or> HasPrefix a ''SRS1='' \<Longrightarrow> decodeSRS a = Some (Inr d) \<Longrightarrow>
       \<exists>evs. handle_address lvl cfg a = Some evs \<and> wire evs = [Write (''200 '' @ d @ ''\<newline>'')]"
    and p: "HasPrefix ''SRS0===='' ''SRS0=''" and d: "decodeSRS ''SRS0===='' = Some (Inr ''@'')"
    by blast+
  from gen [OF disjI1 [OF p] d]
  show "\<exists>evs. handle_address lvl cfg ''SRS0===='' = Some evs \<and> wire evs = [Write ''200 @\<newline>'']"
    by simp
qed

section \<open>Start-up order\<close>

lemma preceded_none: "\<forall>e\<in>set xs. \<not> Q e \<Longrightarrow> preceded P Q xs seen"
  by (induction xs arbitrary: seen) auto

lemma preceded_seen: "preceded P Q xs True"
  by (induction xs) auto

lemma preceded_append:
  "preceded P Q (xs @ ys) seen
     = (preceded P Q xs seen \<and> preceded P Q ys (seen \<or> (\<exists>x\<in>set xs. P x)))"
  by (induction xs arbitrary: seen) auto

lemma neutral_simps [simp]:
  "neutral (Log m)" "neutral (Stdout m)" "neutral (Exit n)" "neutral (Sys_Setgid i)"
  "neutral (Sys_Setuid i)" "neutral (Go tr)"
  by (simp_all add: neutral_def is_dropPrivileges_def is_Listen_def is_Accept_def)

lemma log_neutral:
  "\<forall>e\<in>set (logError msg). neutral e"
  "\<forall>e\<in>set (logInfo lvl msg). neutral e"
  "\<forall>e\<in>set (logFatal msg). neutral e"
  by (simp_all add: logError_def logInfo_def logFatal_def)

lemma set_gid_section_neutral:
  "set_gid_section sys g = (err, sys', evs) \<Longrightarrow> \<forall>e\<in>set evs. neutral e"
  by (auto simp: set_gid_section_def split: if_splits sum.splits option.splits)

lemma set_uid_section_neutral:
  "set_uid_section sys u = (err, sys', evs) \<Longrightarrow> \<forall>e\<in>set evs. neutral e"
  by (auto simp: set_uid_section_def split: if_splits sum.splits option.splits)

lemma check_section_neutral:
  "check_section lvl sys = (err, evs) \<Longrightarrow> \<forall>e\<in>set evs. neutral e"
  using log_neutral
  by (auto simp: check_section_def split: if_splits sum.splits prod.splits)

lemma dropPrivileges_neutral:
  assumes "dropPrivileges lvl sys u g = (err, sys', evs)"
  shows "\<forall>e\<in>set evs. neutral e"
proof -
  obtain e1 s1 v1 where g: "set_gid_section sys g = (e1, s1, v1)"
    by (cases "set_gid_section sys g") auto
  obtain e2 s2 v2 where u: "set_uid_section s1 u = (e2, s2, v2)"
    by (cases "set_uid_section s1 u") auto
  obtain e3 v3 where c: "check_section lvl s2 = (e3, v3)"
    by (cases "check_section lvl s2") auto
  have "set evs \<subseteq> set v1 \<union> set v2 \<union> set v3"
    using assms g u c by (auto simp: dropPrivileges_def split: option.splits)
  then show ?thesis
    using set_gid_section_neutral [OF g] set_uid_section_neutral [OF u]
      check_section_neutral [OF c]
    by blast
qed

lemma accept_loop_events:
  "\<forall>e\<in>set (accept_loop lvl cfg conns). \<not> is_dropPrivileges e \<and> \<not> is_Listen e"
  by (induction lvl cfg conns rule: accept_loop.induct)
    (auto simp: is_dropPrivileges_def is_Listen_def logError_def)

lemma filter_none: "\<forall>e\<in>set xs. \<not> P e \<Longrightarrow> filter P xs = []"
  by (induction xs) auto

lemma trace_neutral:
  assumes "\<forall>e\<in>set tr. neutral e"
  shows "filter is_dropPrivileges tr = []" "filter is_Listen tr = []"
    "preceded P is_Listen tr seen" "preceded P is_Accept tr seen"
    "preceded P is_dropPrivileges tr seen"
  using assms by (auto simp: neutral_def intro!: filter_none preceded_none)

lemma trace_dropped:
  assumes "\<forall>e\<in>set xs. neutral e" "\<forall>e\<in>set ys. neutral e"
    and "tr = xs @ [Call_dropPrivileges u g] @ ys"
  shows "length (filter is_dropPrivileges tr) = 1" "filter is_Listen tr = []"
    "preceded is_dropPrivileges is_Listen tr False" "preceded is_Listen is_Accept tr False"
  using assms(3) trace_neutral [OF assms(1)] trace_neutral [OF assms(2)]
  by (simp_all add: preceded_append is_dropPrivileges_def is_Listen_def is_Accept_def)

lemma trace_listening:
  assumes "\<forall>e\<in>set xs. neutral e" "\<forall>e\<in>set ys. neutral e"
    and "\<forall>e\<in>set zs. \<not> is_dropPrivileges e \<and> \<not> is_Listen e"
    and "tr = xs @ [Call_dropPrivileges u g] @ ys @ [Call_Listen a] @ zs"
  shows "length (filter is_dropPrivileges tr) = 1" "length (filter is_Listen tr) = 1"
    "preceded is_dropPrivileges is_Listen tr False" "preceded is_Listen is_Accept tr False"
    "\<exists>e\<in>set tr. is_Listen e"
proof -
  have zs: "filter is_dropPrivileges zs = []" "filter is_Listen zs = []"
    using assms(3) by (auto intro!: filter_none)
  show "length (filter is_dropPrivileges tr) = 1" "length (filter is_Listen tr) = 1"
    using assms(4) trace_neutral(1,2) [OF assms(1)] trace_neutral(1,2) [OF assms(2)] zs
    by (simp_all add: is_dropPrivileges_def is_Listen_def)
  show "preceded is_dropPrivileges is_Listen tr False"
    using assms(4) trace_neutral(3) [OF assms(1)]
    by (simp add: preceded_append is_dropPrivileges_def is_Listen_def preceded_seen)
  show "preceded is_Listen is_Accept tr False"
    using assms(4) trace_neutral(4) [OF assms(1)] trace_neutral(4) [OF assms(2)]
    by (simp add: preceded_append is_dropPrivileges_def is_Listen_def is_Accept_def preceded_seen)
  show "\<exists>e\<in>set tr. is_Listen e"
    using assms(4) by (auto simp: is_Listen_def)
qed

lemma main_no_config:
  assumes "LoadConfig env ''/etc/srs-resolver/srs-resolver.conf'' = Inl err"
  shows "\<forall>e\<in>set (main env). neutral e"
  using assms by (simp add: main_def)

lemma main_no_logging:
  assumes "LoadConfig env ''/etc/srs-resolver/srs-resolver.conf'' = Inr cfg"
    and "InitLogging env cfg = Inl err"
  shows "\<forall>e\<in>set (main env). neutral e"
  using assms by (simp add: main_def)

lemma main_started:
  assumes "LoadConfig env ''/etc/srs-resolver/srs-resolver.conf'' = Inr cfg"
    and "InitLogging env cfg = Inr lvl"
  shows "\<exists>xs ys zs.
      (\<forall>e\<in>set xs. neutral e) \<and> (\<forall>e\<in>set ys. neutral e)
      \<and> (\<forall>e\<in>set zs. \<not> is_dropPrivileges e \<and> \<not> is_Listen e)
      \<and> (if fst (dropPrivileges lvl (system env) (DropUser cfg) (DropGroup cfg)) = None
         then main env = xs @ [Call_dropPrivileges (DropUser cfg) (DropGroup cfg)] @ ys
                          @ [Call_Listen (Listen cfg)] @ zs
         else main env = xs @ [Call_dropPrivileges (DropUser cfg) (DropGroup cfg)] @ ys)"
proof -
  define xs where "xs =
    (if showVersion env \<or> showVersionLong env then [Stdout version_text] else [])
    @ logInfo lvl (''srs-resolver version '' @ version @ '' starting...'')"
  obtain err sys' evs
    where d: "dropPrivileges lvl (system env) (DropUser cfg) (DropGroup cfg) = (err, sys', evs)"
    by (cases "dropPrivileges lvl (system env) (DropUser cfg) (DropGroup cfg)") auto
  have xs: "\<forall>e\<in>set xs. neutral e"
    using log_neutral(2) [of lvl] by (auto simp: xs_def)
  have evs: "\<forall>e\<in>set evs. neutral e" by (rule dropPrivileges_neutral [OF d])
  show ?thesis
  proof (cases err)
    case (Some e)
    define ys where "ys = evs @ logFatal (''Dropping privileges failed: '' @ e)"
    have tr: "main env = xs @ [Call_dropPrivileges (DropUser cfg) (DropGroup cfg)] @ ys"
      using assms d Some by (simp add: main_def xs_def ys_def)
    have ys: "\<forall>x\<in>set ys. neutral x"
      using evs log_neutral(3) by (auto simp: ys_def)
    have "fst (dropPrivileges lvl (system env) (DropUser cfg) (DropGroup cfg)) \<noteq> None"
      using d Some by simp
    then show ?thesis
      using xs ys tr by (intro exI [of _ xs] exI [of _ ys] exI [of _ "[]"]) simp
  next
    case None
    define zs where "zs =
      (case net_Listen env (Listen cfg) of
         Some err \<Rightarrow> logFatal (''Listen error: '' @ err)
       | None \<Rightarrow> logInfo lvl (''Listening on '' @ Listen cfg)
                  @ accept_loop lvl cfg (accepts env))"
    have tr: "main env = xs @ [Call_dropPrivileges (DropUser cfg) (DropGroup cfg)] @ evs
        @ [Call_Listen (Listen cfg)] @ zs"
      using assms d None by (simp add: main_def xs_def zs_def)
    have zs: "\<forall>e\<in>set zs. \<not> is_dropPrivileges e \<and> \<not> is_Listen e"
    proof (cases "net_Listen env (Listen cfg)")
      case None
      then show ?thesis
        using log_neutral(2) [of lvl] accept_loop_events [of lvl cfg "accepts env"]
        by (auto simp: zs_def neutral_def)
    next
      case (Some e)
      then show ?thesis
        using log_neutral(3) by (auto simp: zs_def neutral_def)
    qed
    have "fst (dropPrivileges lvl (system env) (DropUser cfg) (DropGroup cfg)) = None"
      using d None by simp
    then show ?thesis
      using xs evs zs tr by (intro exI [of _ xs] exI [of _ evs] exI [of _ zs]) simp
  qed
qed

lemma main_example:
  "main example_environment =
     [Log ''[INFO] srs-resolver version 1.0.0 starting...'',
      Call_dropPrivileges ''nobody'' ''nogroup'',
      Sys_Setgid 65534,
      Sys_Setuid 65534,
      Log ''[INFO] Running as user: nobody (UID 65534), group: nogroup (GID 65534)'',
      Call_Listen ''127.0.0.1:10022'',
      Log ''[INFO] Listening on 127.0.0.1:10022'',
      Call_Accept,
      Go (handle LogInfo example_config ''get user@example.com\<newline>'')]"
  by (simp add: main_def example_environment_def example_config_def example_os_def
      dropPrivileges_def set_gid_section_def set_uid_section_def check_section_def
      logInfo_def logError_def LogInfo_def version_def)

text \<open>
  C1, as stated: \<open>dropPrivileges\<close> runs exactly once, after the listening socket has
  been bound and before the accept loop is entered. The source calls
  \<open>dropPrivileges\<close> before \<open>net.Listen\<close>: in the example run, where every step
  succeeds, the call of \<open>dropPrivileges\<close> is not preceded by a call of \<open>net.Listen\<close>.
\<close>

theorem privileges_dropped_after_bind_counterexample:
  "\<not> preceded is_Listen is_dropPrivileges (main example_environment) False"
  by (simp add: main_example is_Listen_def is_dropPrivileges_def)

text \<open>
  C1, amended: \<open>main\<close> calls \<open>dropPrivileges\<close> at most once, and exactly once in
  every run in which the configuration is loaded and logging is set up. It calls
  \<open>net.Listen\<close> at most once, only after the call of \<open>dropPrivileges\<close>, and exactly
  when \<open>dropPrivileges\<close> has returned no error: privileges are dropped before the
  listening socket is bound. Every call of \<open>Accept\<close> comes after the call of
  \<open>net.Listen\<close>.
\<close>

theorem privileges_dropped_before_listen:
  "length (filter is_dropPrivileges (main env)) \<le> 1
   \<and> length (filter is_Listen (main env)) \<le> 1
   \<and> preceded is_dropPrivileges is_Listen (main env) False
   \<and> preceded is_Listen is_Accept (main env) False
   \<and> (\<forall>cfg lvl. LoadConfig env ''/etc/srs-resolver/srs-resolver.conf'' = Inr cfg \<longrightarrow>
          InitLogging env cfg = Inr lvl \<longrightarrow>
          length (filter is_dropPrivileges (main env)) = 1
          \<and> ((\<exists>e\<in>set (main env). is_Listen e)
               \<longleftrightarrow> fst (dropPrivileges lvl (system env) (DropUser cfg) (DropGroup cfg)) = None))"
proof -
  let ?tr = "main env"
  have started: "length (filter is_dropPrivileges ?tr) = 1
      \<and> length (filter is_Listen ?tr) \<le> 1
      \<and> preceded is_dropPrivileges is_Listen ?tr False
      \<and> preceded is_Listen is_Accept ?tr False
      \<and> ((\<exists>e\<in>set ?tr. is_Listen e)
           \<longleftrightarrow> fst (dropPrivileges lvl (system env) (DropUser cfg) (DropGroup cfg)) = None)"
    if c: "LoadConfig env ''/etc/srs-resolver/srs-resolver.conf'' = Inr cfg"
      and l: "InitLogging env cfg = Inr lvl" for cfg lvl
  proof -
    obtain xs ys zs where n: "\<forall>e\<in>set xs. neutral e" "\<forall>e\<in>set ys. neutral e"
      "\<forall>e\<in>set zs. \<not> is_dropPrivileges e \<and> \<not> is_Listen e"
      and shape: "if fst (dropPrivileges lvl (system env) (DropUser cfg) (DropGroup cfg)) = None
         then ?tr = xs @ [Call_dropPrivileges (DropUser cfg) (DropGroup cfg)] @ ys
                          @ [Call_Listen (Listen cfg)] @ zs
         else ?tr = xs @ [Call_dropPrivileges (DropUser cfg) (DropGroup cfg)] @ ys"
      using main_started [OF c l] by blast
    show ?thesis
    proof (cases "fst (dropPrivileges lvl (system env) (DropUser cfg) (DropGroup cfg)) = None")
      case True
      then have "?tr = xs @ [Call_dropPrivileges (DropUser cfg) (DropGroup cfg)] @ ys
                          @ [Call_Listen (Listen cfg)] @ zs"
        using shape by simp
      from trace_listening [OF n this] True show ?thesis by simp
    next
      case False
      then have "?tr = xs @ [Call_dropPrivileges (DropUser cfg) (DropGroup cfg)] @ ys"
        using shape by simp
      from trace_dropped [OF n(1,2) this] False show ?thesis
        by (auto simp: filter_empty_conv)
    qed
  qed
  have stopped: "length (filter is_dropPrivileges ?tr) \<le> 1
      \<and> length (filter is_Listen ?tr) \<le> 1
      \<and> preceded is_dropPrivileges is_Listen ?tr False
      \<and> preceded is_Listen is_Accept ?tr False"
    if "\<forall>e\<in>set ?tr. neutral e"
    using trace_neutral [OF that] by simp
  show ?thesis
  proof (cases "LoadConfig env ''/etc/srs-resolver/srs-resolver.conf''")
    case (Inl err)
    from stopped [OF main_no_config [OF Inl]] Inl show ?thesis by simp
  next
    case (Inr cfg)
    show ?thesis
    proof (cases "InitLogging env cfg")
      case (Inl err)
      from stopped [OF main_no_logging [OF Inr Inl]] Inr Inl show ?thesis by simp
    next
      case lvl: (Inr lvl)
      from started [OF Inr lvl] Inr lvl show ?thesis by simp
    qed
  qed
qed

theorem privileges_dropped_before_listen_witness:
  "length (filter is_dropPrivileges (main example_environment)) = 1
   \<and> (\<exists>e\<in>set (main example_environment). is_Listen e)
   \<and> preceded is_dropPrivileges is_Listen (main example_environment) False"
proof -
  have c: "LoadConfig example_environment ''/etc/srs-resolver/srs-resolver.conf'' = Inr example_config"
    by (simp add: example_environment_def)
  have l: "InitLogging example_environment example_config = Inr LogInfo"
    by (simp add: example_environment_def)
  have d: "fst (dropPrivileges LogInfo (system example_environment) (DropUser example_config)
      (DropGroup example_config)) = None"
    by (simp add: example_environment_def example_config_def example_os_def
      dropPrivileges_def set_gid_section_def set_uid_section_def check_section_def)
  show ?thesis
    using privileges_dropped_before_listen [of example_environment] c l d by blast
qed

end
